theory Spec2Isabelle
  imports Main "HOL-Library.AList"
begin

section \<open>Errors\<close>

text \<open>
  The Python exceptions the modelled code can raise. A function that can raise returns
  \<open>error + 'a\<close>, with \<open>Inl\<close> for the exception. \<open>SystemExit\<close> is what \<open>sys.exit()\<close> raises.
  \<open>NotATime\<close> is not an exception: it marks the one place (\<open>sendMessage\<close> before the kernel
  has a current time) where the code goes on with pandas' \<open>NaT\<close>, a time value that the
  times of this model, integers, do not have.

  Two things are taken to return wherever the code uses them: \<open>print\<close> of util/util.py,
  which is not among the sources (the arguments of a call are computed, and what
  computing them can raise is modelled), and the conversion of an int to its decimal
  digits.
\<close>

datatype error =
    IndexError | KeyError | ZeroDivisionError | ValueError | TypeError | AttributeError
  | OverflowError | SystemExit | NotATime

section \<open>FinancialAgent.py\<close>

text \<open>
  \<open>dollarize(cents)\<close> formats integer cents as dollars through \<open>cents / 100\<close>, a float.
  Python's division of two ints, like its conversion of an int to a float, raises
  OverflowError when the result, rounded to the nearest double, is beyond the doubles:
  when its absolute value is at least \<open>2^1024 - 2^970\<close>. Of \<open>dollarize\<close> the model keeps
  whether it raises, not the string it returns; its branches for a list and for a value
  that is not an int are not taken, the cents being ints.
\<close>

definition float_limit :: int where
  "float_limit = 2 ^ 1024 - 2 ^ 970"

definition true_div_overflows :: "int \<Rightarrow> int \<Rightarrow> bool" where
  "true_div_overflows a b = (\<bar>a\<bar> \<ge> \<bar>b\<bar> * float_limit)"

definition float_overflows :: "int \<Rightarrow> bool" where
  "float_overflows n = (\<bar>n\<bar> \<ge> float_limit)"

definition dollarize :: "int \<Rightarrow> error + unit" where
  "dollarize cents = (if true_div_overflows cents 100 then Inl OverflowError else Inr ())"

section \<open>Orders and messages\<close>

text \<open>
  Modelled from the spec: \<open>LimitOrder\<close> (util/order/LimitOrder.py is not among the
  sources). The fields are the ones the spec lists for an Order and the ones
  OrderBook.py and TradingAgent.py read and write. Prices are integer cents and
  quantities are integers, so \<open>int(order.quantity) != order.quantity\<close> is never true.
  \<open>fill_price\<close> is \<open>None\<close> until the order is executed. The constructor and the
  conversion of an order to a string, which the \<open>print\<close> lines of the code use, are taken
  to return.
\<close>

record LimitOrder =
  agent_id :: nat
  time_placed :: int
  symbol :: string
  quantity :: int
  is_buy_order :: bool
  limit_price :: int
  order_id :: nat
  fill_price :: "int option"

text \<open>
  The message bodies built in OrderBook.py and in TradingAgent.placeLimitOrder
  (\<open>Message({ "msg": ..., "order": ... })\<close>). \<open>sendMessage (recipient, msg)\<close> is
  modelled by appending \<open>(recipient, msg)\<close> to the list of messages sent.
\<close>

datatype Message =
    ORDER_EXECUTED LimitOrder
  | ORDER_ACCEPTED LimitOrder
  | ORDER_CANCELLED LimitOrder
  | LIMIT_ORDER LimitOrder

type_synonym outbox = "(nat \<times> Message) list"

section \<open>MeanRevertingOracle.py\<close>

text \<open>
  The oracle holds, for every symbol, the fundamental value series \<open>self.r[symbol]\<close>, a
  pandas Series indexed by time: a map from times (nanoseconds) to integer cents, where
  \<open>.loc\<close> on a missing time, like \<open>self.r[symbol]\<close> on a missing symbol, raises KeyError.
  The noisy observation \<open>int(round(np.random.normal(loc=r_t, scale=sqrt(sigma_n))))\<close> is a
  random draw: it is the parameter \<open>noisy\<close>, a function of \<open>r_t\<close> and \<open>sigma_n\<close>.
\<close>

record MeanRevertingOracle =
  mkt_open :: int
  mkt_close :: int
  oracle_r :: "string \<rightharpoonup> (int \<rightharpoonup> int)"

definition observePrice ::
  "(int \<Rightarrow> int \<Rightarrow> int) \<Rightarrow> MeanRevertingOracle \<Rightarrow> string \<Rightarrow> int \<Rightarrow> int \<Rightarrow> error + int" where
  "observePrice noisy orc sym' currentTime' sigma_n =
     (case oracle_r orc sym' of
        None \<Rightarrow> Inl KeyError
      | Some series \<Rightarrow>
          (case (if currentTime' \<ge> mkt_close orc then series (mkt_close orc - 1)
                 else series currentTime') of
             None \<Rightarrow> Inl KeyError
           | Some r_t \<Rightarrow> Inr (if sigma_n = 0 then r_t else noisy r_t sigma_n)))"

section \<open>OrderBook.py\<close>

text \<open>
  One side of the book is a list of price levels, best price first; a level is the list
  of the orders resting at that price, oldest first. \<open>book_last_trade\<close> is \<open>self.last_trade\<close>,
  \<open>None\<close> in a new book. The log events and the depth log are written and never read:
  of them the model keeps the exceptions that computing them can raise.
\<close>

type_synonym level = "LimitOrder list"

record OrderBook =
  book_symbol :: string
  bids :: "level list"
  asks :: "level list"
  book_last_trade :: "int option"

definition OrderBook_init :: "string \<Rightarrow> OrderBook" where
  "OrderBook_init s = \<lparr>book_symbol = s, bids = [], asks = [], book_last_trade = None\<rparr>"

text \<open>
  What a book is run with and does not define itself. Its owner is the exchange agent
  (agent/ExchangeAgent.py and agent/Agent.py are not among the sources): the book reads the
  owner's \<open>currentTime\<close> and \<open>oracle\<close>, and the owner's \<open>sendMessage\<close> and \<open>logEvent\<close> are taken to
  return. \<open>avg_price\<close> stands for \<open>int(round(trade_price / trade_qty))\<close>, which is computed in
  floating point: a function of \<open>trade_price\<close> and \<open>trade_qty\<close>.
\<close>

record BookOwner =
  owner_currentTime :: int
  owner_oracle :: MeanRevertingOracle
  avg_price :: "int \<Rightarrow> int \<Rightarrow> int"

text \<open>
  \<open>getInsideBids\<close> and \<open>getInsideAsks\<close> with the default depth: for every level the price of
  its first order and the total quantity; \<open>[0]\<close> on an empty level raises IndexError.
\<close>

fun getInside :: "level list \<Rightarrow> error + (int \<times> int) list" where
  "getInside [] = Inr []"
| "getInside ([] # rest) = Inl IndexError"
| "getInside ((x # xs) # rest) =
     (case getInside rest of
        Inl e \<Rightarrow> Inl e
      | Inr book \<Rightarrow> Inr ((limit_price x, sum_list (map quantity (x # xs))) # book))"

definition getInsideBids :: "OrderBook \<Rightarrow> error + (int \<times> int) list" where
  "getInsideBids b = getInside (bids b)"

definition getInsideAsks :: "OrderBook \<Rightarrow> error + (int \<times> int) list" where
  "getInsideAsks b = getInside (asks b)"

text \<open>
  \<open>prettyPrint\<close> builds the text of the book: it asks the owner's oracle for the price of
  the symbol at the current time without noise (KeyError when the oracle has none),
  formats \<open>self.last_trade\<close> as a float (TypeError on \<open>None\<close>, OverflowError beyond the
  doubles), and then, for the asks from the highest price down and for the bids, computes
  \<open>quote/100\<close>. The oracle's value is a 64-bit numpy integer, whose division by 100 does
  not raise. The result is only whether \<open>prettyPrint\<close> returns.
\<close>

fun format_quotes :: "(int \<times> int) list \<Rightarrow> error + unit" where
  "format_quotes [] = Inr ()"
| "format_quotes ((quote, volume) # rest) =
     (if true_div_overflows quote 100 then Inl OverflowError else format_quotes rest)"

definition prettyPrint :: "BookOwner \<Rightarrow> OrderBook \<Rightarrow> error + unit" where
  "prettyPrint owner b =
     (case observePrice (\<lambda>r_t sigma_n. r_t) (owner_oracle owner) (book_symbol b)
             (owner_currentTime owner) 0 of
        Inl e \<Rightarrow> Inl e
      | Inr historical \<Rightarrow>
     (case book_last_trade b of
        None \<Rightarrow> Inl TypeError
      | Some simulated \<Rightarrow>
          if float_overflows simulated then Inl OverflowError
          else
            (case getInsideAsks b of
               Inl e \<Rightarrow> Inl e
             | Inr inside_asks \<Rightarrow>
            (case format_quotes (rev inside_asks) of
               Inl e \<Rightarrow> Inl e
             | Inr _ \<Rightarrow>
            (case getInsideBids b of
               Inl e \<Rightarrow> Inl e
             | Inr inside_bids \<Rightarrow> format_quotes inside_bids)))))"

definition isMatch :: "LimitOrder \<Rightarrow> LimitOrder \<Rightarrow> bool" where
  "isMatch order' o' =
     (if is_buy_order order' = is_buy_order o' then False
      else if is_buy_order order' \<and> limit_price order' \<ge> limit_price o' then True
      else if \<not> is_buy_order order' \<and> limit_price order' \<le> limit_price o' then True
      else False)"

definition isBetterPrice :: "LimitOrder \<Rightarrow> LimitOrder \<Rightarrow> bool" where
  "isBetterPrice order' o' =
     (if is_buy_order order' \<noteq> is_buy_order o' then False
      else if is_buy_order order' \<and> limit_price order' > limit_price o' then True
      else if \<not> is_buy_order order' \<and> limit_price order' < limit_price o' then True
      else False)"

definition isEqualPrice :: "LimitOrder \<Rightarrow> LimitOrder \<Rightarrow> bool" where
  "isEqualPrice order' o' = (limit_price order' = limit_price o')"

text \<open>
  The \<open>for i, o in enumerate(book)\<close> loop of \<open>executeOrder\<close>: the first level whose
  head matches is taken. \<open>o[0]\<close> on an empty level raises IndexError. A fully consumed
  head is popped (and its level deleted when it becomes empty); otherwise the match is
  a copy of the head with the incoming quantity, and the head's quantity is reduced.
  The result is the matched order, with \<open>fill_price\<close> set to its own \<open>limit_price\<close>, and
  the side as it is left.
\<close>

fun executeOrder_scan ::
  "LimitOrder \<Rightarrow> level list \<Rightarrow> error + (LimitOrder option \<times> level list)" where
  "executeOrder_scan order' [] = Inr (None, [])"
| "executeOrder_scan order' ([] # rest) = Inl IndexError"
| "executeOrder_scan order' ((o0 # os) # rest) =
     (if isMatch order' o0 then
        (if quantity order' \<ge> quantity o0 then
           Inr (Some (o0\<lparr>fill_price := Some (limit_price o0)\<rparr>),
                if os = [] then rest else os # rest)
         else
           Inr (Some (o0\<lparr>quantity := quantity order', fill_price := Some (limit_price o0)\<rparr>),
                (o0\<lparr>quantity := quantity o0 - quantity order'\<rparr> # os) # rest))
      else
        (case executeOrder_scan order' rest of
           Inl e \<Rightarrow> Inl e
         | Inr (m, rest') \<Rightarrow> Inr (m, (o0 # os) # rest')))"

text \<open>\<open>executeOrder\<close> on the side opposite to the incoming order.\<close>

definition executeOrder_side ::
  "LimitOrder \<Rightarrow> level list \<Rightarrow> error + (LimitOrder option \<times> level list)" where
  "executeOrder_side order' book =
     (case book of
        [] \<Rightarrow> Inr (None, book)
      | [] # _ \<Rightarrow> Inl IndexError
      | (o0 # _) # _ \<Rightarrow>
          if \<not> isMatch order' o0 then Inr (None, book)
          else executeOrder_scan order' book)"

definition executeOrder ::
  "OrderBook \<Rightarrow> LimitOrder \<Rightarrow> error + (LimitOrder option \<times> OrderBook)" where
  "executeOrder b order' =
     (if is_buy_order order' then
        (case executeOrder_side order' (asks b) of
           Inl e \<Rightarrow> Inl e
         | Inr (m, book') \<Rightarrow> Inr (m, b\<lparr>asks := book'\<rparr>))
      else
        (case executeOrder_side order' (bids b) of
           Inl e \<Rightarrow> Inl e
         | Inr (m, book') \<Rightarrow> Inr (m, b\<lparr>bids := book'\<rparr>)))"

text \<open>
  The \<open>for i, o in enumerate(book)\<close> loop of \<open>enterOrder\<close>: insert a new level before
  the first level with a worse price, or append to the first level with the same price.
  When the loop ends without a \<open>break\<close> the order is entered nowhere.
\<close>

fun enterOrder_scan :: "LimitOrder \<Rightarrow> level list \<Rightarrow> error + level list" where
  "enterOrder_scan order' [] = Inr []"
| "enterOrder_scan order' ([] # rest) = Inl IndexError"
| "enterOrder_scan order' ((o0 # os) # rest) =
     (if isBetterPrice order' o0 then Inr ([order'] # (o0 # os) # rest)
      else if isEqualPrice order' o0 then Inr (((o0 # os) @ [order']) # rest)
      else
        (case enterOrder_scan order' rest of
           Inl e \<Rightarrow> Inl e
         | Inr rest' \<Rightarrow> Inr ((o0 # os) # rest')))"

definition enterOrder_side :: "LimitOrder \<Rightarrow> level list \<Rightarrow> error + level list" where
  "enterOrder_side order' book =
     (if book = [] then Inr [[order']]
      else
        (case last book of
           [] \<Rightarrow> Inl IndexError
         | w # _ \<Rightarrow>
             if \<not> isBetterPrice order' w \<and> \<not> isEqualPrice order' w
             then Inr (book @ [[order']])
             else enterOrder_scan order' book))"

definition enterOrder :: "OrderBook \<Rightarrow> LimitOrder \<Rightarrow> error + OrderBook" where
  "enterOrder b order' =
     (if is_buy_order order' then
        (case enterOrder_side order' (bids b) of
           Inl e \<Rightarrow> Inl e
         | Inr book' \<Rightarrow> Inr (b\<lparr>bids := book'\<rparr>))
      else
        (case enterOrder_side order' (asks b) of
           Inl e \<Rightarrow> Inl e
         | Inr book' \<Rightarrow> Inr (b\<lparr>asks := book'\<rparr>)))"

text \<open>The number of orders resting on the side an incoming order is matched against.\<close>

definition opposite_size :: "OrderBook \<Rightarrow> LimitOrder \<Rightarrow> nat" where
  "opposite_size b order' =
     length (concat (if is_buy_order order' then asks b else bids b))"

text \<open>
  The \<open>while matching\<close> loop of \<open>handleLimitOrder\<close>. Its state is the book, the incoming
  order (whose quantity the loop decrements), the messages sent so far and the list
  \<open>executed\<close> of (quantity, fill price) pairs. A pass that is followed by another has
  popped a resting order from the opposite side, so the loop ends: its termination is
  proved below, by the number of orders resting on that side.
\<close>

function handleLimitOrder_loop ::
  "OrderBook \<Rightarrow> LimitOrder \<Rightarrow> outbox \<Rightarrow> (int \<times> int option) list \<Rightarrow>
   error + (OrderBook \<times> outbox \<times> (int \<times> int option) list)" where
  "handleLimitOrder_loop b order' sent executed =
     (case executeOrder b order' of
        Inl e \<Rightarrow> Inl e
      | Inr (Some matched_order, b') \<Rightarrow>
          (if quantity order' - quantity matched_order \<le> 0 then
             Inr (b',
                  sent @ [(agent_id order', ORDER_EXECUTED
                             (order'\<lparr>quantity := quantity matched_order,
                                     fill_price := fill_price matched_order\<rparr>)),
                          (agent_id matched_order, ORDER_EXECUTED matched_order)],
                  executed @ [(quantity matched_order, fill_price matched_order)])
           else
             handleLimitOrder_loop b'
               (order'\<lparr>quantity := quantity order' - quantity matched_order\<rparr>)
               (sent @ [(agent_id order', ORDER_EXECUTED
                           (order'\<lparr>quantity := quantity matched_order,
                                   fill_price := fill_price matched_order\<rparr>)),
                        (agent_id matched_order, ORDER_EXECUTED matched_order)])
               (executed @ [(quantity matched_order, fill_price matched_order)]))
      | Inr (None, b') \<Rightarrow>
          (case enterOrder b' order' of
             Inl e \<Rightarrow> Inl e
           | Inr b'' \<Rightarrow> Inr (b'', sent @ [(agent_id order', ORDER_ACCEPTED order')], executed)))"
  by pat_completeness auto

text \<open>
  The bookkeeping of \<open>handleLimitOrder\<close> after the loop. The best bid and the best ask are
  logged with \<open>dollarize(self.bids[0][0].limit_price)\<close> and the same for the asks.
\<close>

definition best_quote_log :: "level list \<Rightarrow> error + unit" where
  "best_quote_log side =
     (case side of
        [] \<Rightarrow> Inr ()
      | [] # _ \<Rightarrow> Inl IndexError
      | (x # _) # _ \<Rightarrow> dollarize (limit_price x))"

text \<open>
  When something was executed, the loop over \<open>executed\<close> prints every fill with
  \<open>dollarize(p)\<close> (which exits on a price that is not an int) and adds up the quantity
  and the quantity-weighted price; then \<open>trade_price / trade_qty\<close> is computed, the
  average price is formatted as a float, and \<open>self.last_trade\<close> is set to it.
\<close>

fun executed_log :: "(int \<times> int option) list \<Rightarrow> int \<Rightarrow> int \<Rightarrow> error + (int \<times> int)" where
  "executed_log [] trade_qty trade_price = Inr (trade_qty, trade_price)"
| "executed_log ((q, p) # rest) trade_qty trade_price =
     (case p of
        None \<Rightarrow> Inl SystemExit
      | Some p' \<Rightarrow>
          (case dollarize p' of
             Inl e \<Rightarrow> Inl e
           | Inr _ \<Rightarrow> executed_log rest (trade_qty + q) (trade_price + p' * q)))"

definition last_trade_log ::
  "BookOwner \<Rightarrow> OrderBook \<Rightarrow> (int \<times> int option) list \<Rightarrow> error + OrderBook" where
  "last_trade_log owner b executed =
     (if executed = [] then Inr b
      else
        (case executed_log executed 0 0 of
           Inl e \<Rightarrow> Inl e
         | Inr (trade_qty, trade_price) \<Rightarrow>
             if trade_qty = 0 then Inl ZeroDivisionError
             else if true_div_overflows trade_price trade_qty then Inl OverflowError
             else if float_overflows (avg_price owner trade_price trade_qty)
               then Inl OverflowError
             else Inr (b\<lparr>book_last_trade := Some (avg_price owner trade_price trade_qty)\<rparr>)))"

text \<open>
  \<open>handleLimitOrder\<close>: the two guards, \<open>prettyPrint\<close>, the loop, the bookkeeping after it
  (best bid, best ask, last trade, and the depth log, which reads \<open>getInsideBids\<close> and
  \<open>getInsideAsks\<close>), and \<open>prettyPrint\<close> again. The result is the book as it is left and the
  messages sent.
\<close>

definition handleLimitOrder ::
  "BookOwner \<Rightarrow> OrderBook \<Rightarrow> LimitOrder \<Rightarrow> error + (OrderBook \<times> outbox)" where
  "handleLimitOrder owner b order' =
     (if symbol order' \<noteq> book_symbol b then Inr (b, [])
      else if quantity order' \<le> 0 then Inr (b, [])
      else
        (case prettyPrint owner b of
           Inl e \<Rightarrow> Inl e
         | Inr _ \<Rightarrow>
        (case handleLimitOrder_loop b order' [] [] of
           Inl e \<Rightarrow> Inl e
         | Inr (b1, sent, executed) \<Rightarrow>
        (case best_quote_log (bids b1) of
           Inl e \<Rightarrow> Inl e
         | Inr _ \<Rightarrow>
        (case best_quote_log (asks b1) of
           Inl e \<Rightarrow> Inl e
         | Inr _ \<Rightarrow>
        (case last_trade_log owner b1 executed of
           Inl e \<Rightarrow> Inl e
         | Inr b2 \<Rightarrow>
        (case getInsideBids b2 of
           Inl e \<Rightarrow> Inl e
         | Inr _ \<Rightarrow>
        (case getInsideAsks b2 of
           Inl e \<Rightarrow> Inl e
         | Inr _ \<Rightarrow>
        (case prettyPrint owner b2 of
           Inl e \<Rightarrow> Inl e
         | Inr _ \<Rightarrow> Inr (b2, sent))))))))))"

text \<open>
  \<open>cancelOrder\<close>: the inner loop looks for the order id within one level, the outer loop
  looks for a level with the order's price; the first hit is popped (and its level
  deleted when it becomes empty) and reported to the order's agent.
\<close>

fun cancelOrder_level :: "nat \<Rightarrow> level \<Rightarrow> (LimitOrder \<times> level) option" where
  "cancelOrder_level oid [] = None"
| "cancelOrder_level oid (co # cos) =
     (if oid = order_id co then Some (co, cos)
      else (case cancelOrder_level oid cos of
              None \<Rightarrow> None
            | Some (c, cos') \<Rightarrow> Some (c, co # cos')))"

fun cancelOrder_scan ::
  "LimitOrder \<Rightarrow> level list \<Rightarrow> error + (LimitOrder option \<times> level list)" where
  "cancelOrder_scan order' [] = Inr (None, [])"
| "cancelOrder_scan order' ([] # rest) = Inl IndexError"
| "cancelOrder_scan order' ((o0 # os) # rest) =
     (case (if isEqualPrice order' o0 then cancelOrder_level (order_id order') (o0 # os)
            else None) of
        Some (c, l') \<Rightarrow> Inr (Some c, if l' = [] then rest else l' # rest)
      | None \<Rightarrow>
          (case cancelOrder_scan order' rest of
             Inl e \<Rightarrow> Inl e
           | Inr (c, rest') \<Rightarrow> Inr (c, (o0 # os) # rest')))"

definition cancelOrder :: "OrderBook \<Rightarrow> LimitOrder \<Rightarrow> error + (OrderBook \<times> outbox)" where
  "cancelOrder b order' =
     (case cancelOrder_scan order' (if is_buy_order order' then bids b else asks b) of
        Inl e \<Rightarrow> Inl e
      | Inr (c, book') \<Rightarrow>
          Inr (if is_buy_order order' then b\<lparr>bids := book'\<rparr> else b\<lparr>asks := book'\<rparr>,
               case c of None \<Rightarrow> [] | Some cancelled_order \<Rightarrow>
                 [(agent_id order', ORDER_CANCELLED cancelled_order)]))"

section \<open>TradingAgent.py\<close>

text \<open>
  The fields of a \<open>TradingAgent\<close> that \<open>placeLimitOrder\<close> and \<open>markToMarket\<close> read and write.
  \<open>holdings\<close> is a Python dict, iterated by \<open>markToMarket\<close> in insertion order: an association
  list, read with \<open>map_of\<close> and written with \<open>AList.update\<close> (which replaces the value of a
  key in place and appends a new key at the end, as a dict does). \<open>orders\<close> and \<open>last_trade\<close>
  are dicts that are only read and written by key: maps. \<open>sent_messages\<close> collects what
  \<open>self.sendMessage\<close> hands to the kernel. \<open>logEvent\<close> (agent/Agent.py is not among the
  sources) is taken to return; the arguments it is called with are computed.
\<close>

record TradingAgent =
  agent_self_id :: nat
  agent_currentTime :: int
  startingCash :: int
  holdings :: "(string \<times> int) list"
  orders :: "nat \<rightharpoonup> LimitOrder"
  last_trade :: "string \<rightharpoonup> int"
  exchangeID :: nat
  sent_messages :: outbox

text \<open>
  The loop of \<open>markToMarket\<close> over \<open>holdings.items()\<close>: CASH is skipped, every other symbol
  adds \<open>self.last_trade[symbol] * shares\<close>; a symbol without a last trade raises KeyError.
  The log event of every symbol is built with \<open>dollarize\<close> of the last trade and of the
  value, and the one after the loop with \<open>dollarize\<close> of the total.
\<close>

fun markToMarket_loop ::
  "(string \<rightharpoonup> int) \<Rightarrow> (string \<times> int) list \<Rightarrow> int \<Rightarrow> error + int" where
  "markToMarket_loop lt [] cash = Inr cash"
| "markToMarket_loop lt ((sym', shares) # rest) cash =
     (if sym' = ''CASH'' then markToMarket_loop lt rest cash
      else
        (case lt sym' of
           None \<Rightarrow> Inl KeyError
         | Some price \<Rightarrow>
             (case dollarize price of
                Inl e \<Rightarrow> Inl e
              | Inr _ \<Rightarrow>
                  (case dollarize (price * shares) of
                     Inl e \<Rightarrow> Inl e
                   | Inr _ \<Rightarrow> markToMarket_loop lt rest (cash + price * shares)))))"

definition markToMarket :: "(string \<rightharpoonup> int) \<Rightarrow> (string \<times> int) list \<Rightarrow> error + int" where
  "markToMarket lt h =
     (case map_of h ''CASH'' of
        None \<Rightarrow> Inl KeyError
      | Some cash \<Rightarrow>
          (case markToMarket_loop lt h cash of
             Inl e \<Rightarrow> Inl e
           | Inr marked \<Rightarrow>
               (case dollarize marked of
                  Inl e \<Rightarrow> Inl e
                | Inr _ \<Rightarrow> Inr marked)))"

text \<open>
  \<open>self.markToMarket(h) - h['CASH']\<close>, the expression \<open>placeLimitOrder\<close> computes for the
  holdings as they are and for the holdings as the order would leave them.
\<close>

definition at_risk :: "(string \<rightharpoonup> int) \<Rightarrow> (string \<times> int) list \<Rightarrow> error + int" where
  "at_risk lt h =
     (case markToMarket lt h of
        Inl e \<Rightarrow> Inl e
      | Inr value \<Rightarrow>
          (case map_of h ''CASH'' of
             None \<Rightarrow> Inl KeyError
           | Some cash \<Rightarrow> Inr (value - cash)))"

text \<open>
  \<open>new_holdings\<close>: a copy of the holdings with the signed order quantity added to the
  order's symbol (or set, when the symbol is not held).
\<close>

definition new_holdings ::
  "(string \<times> int) list \<Rightarrow> string \<Rightarrow> int \<Rightarrow> bool \<Rightarrow> (string \<times> int) list" where
  "new_holdings h sym' qty buy =
     (let q = (if buy then qty else - qty)
      in case map_of h sym' of
           Some held \<Rightarrow> AList.update sym' (held + q) h
         | None \<Rightarrow> AList.update sym' q h)"

text \<open>
  \<open>placeLimitOrder\<close>. The order id is assigned by the \<open>LimitOrder\<close> constructor, which is not
  among the sources: it is the parameter \<open>oid\<close>. The line printed for an order that is
  rejected formats the holdings with \<open>fmtHoldings\<close>, which calls \<open>dollarize\<close> on the CASH
  entry.
\<close>

definition placeLimitOrder ::
  "nat \<Rightarrow> TradingAgent \<Rightarrow> string \<Rightarrow> int \<Rightarrow> bool \<Rightarrow> int \<Rightarrow> error + TradingAgent" where
  "placeLimitOrder oid a sym' qty buy price =
     (let order' = \<lparr>agent_id = agent_self_id a, time_placed = agent_currentTime a,
                     symbol = sym', quantity = qty, is_buy_order = buy, limit_price = price,
                     order_id = oid, fill_price = None\<rparr>
      in if qty > 0 then
           (case at_risk (last_trade a) (holdings a) of
              Inl e \<Rightarrow> Inl e
            | Inr at_risk_now \<Rightarrow>
                (case at_risk (last_trade a) (new_holdings (holdings a) sym' qty buy) of
                   Inl e \<Rightarrow> Inl e
                 | Inr new_at_risk \<Rightarrow>
                     if new_at_risk > at_risk_now \<and> new_at_risk > startingCash a then
                       (case map_of (holdings a) ''CASH'' of
                          None \<Rightarrow> Inl KeyError
                        | Some cash \<Rightarrow>
                            (case dollarize cash of
                               Inl e \<Rightarrow> Inl e
                             | Inr _ \<Rightarrow> Inr a))
                     else Inr (a\<lparr>orders := (orders a)(oid \<mapsto> order'),
                                sent_messages :=
                                  sent_messages a @ [(exchangeID a, LIMIT_ORDER order')]\<rparr>)))
         else Inr a)"

section \<open>Kernel.py\<close>

text \<open>
  Modelled from the spec: \<open>MessageType\<close> (message/Message.py is not among the sources). The
  kernel enqueues \<open>MessageType.WAKEUP\<close> and \<open>MessageType.MESSAGE\<close> only; \<open>UNKNOWN\<close> stands for
  any other value, which the run loop answers with an exception.
\<close>

datatype MessageType = WAKEUP | MESSAGE | UNKNOWN

text \<open>
  An entry of the event queue is the tuple \<open>(deliverAt, (recipient, msg_type, msg))\<close> that
  \<open>sendMessage\<close> and \<open>setWakeup\<close> put; times are nanoseconds, \<open>msg\<close> is \<open>None\<close> for a wakeup.
\<close>

type_synonym 'm event = "int \<times> (nat \<times> MessageType \<times> 'm option)"

text \<open>
  What the kernel is run with, and does not define itself: the agents' callbacks, the
  order of Message.py on the rest of a queue entry, and the latency noise drawn by
  \<open>np.random.choice\<close>. A callback works on the state \<open>'s\<close> of the agents and returns the
  calls it makes to the kernel, in order.
\<close>

datatype 'm KernelCall =
    SendMessage "nat option" "nat option" "'m option" int
  | SetWakeup "nat option" "int option"
  | SetAgentComputeDelay nat int
  | DelayAgent nat int

record ('s, 'm) Environment =
  wakeup :: "nat \<Rightarrow> int \<Rightarrow> 's \<Rightarrow> 's \<times> 'm KernelCall list"
  receiveMessage :: "nat \<Rightarrow> int \<Rightarrow> 'm option \<Rightarrow> 's \<Rightarrow> 's \<times> 'm KernelCall list"
  payload_less :: "MessageType \<times> 'm option \<Rightarrow> MessageType \<times> 'm option \<Rightarrow> bool"
  noise :: "nat \<Rightarrow> int"

text \<open>
  \<open>self.messages\<close> is a \<open>queue.PriorityQueue\<close> of the standard library: \<open>put\<close> adds an entry
  and \<open>get\<close> removes and returns the lowest one. Python compares the entries as tuples:
  first \<open>deliverAt\<close>, then, when these are equal, \<open>recipient\<close>, and only when these are equal
  too, the message type and the message. The queue is the list of its entries, oldest
  first. Of several entries none of which is lower than another the standard library
  promises no particular one; \<open>pq_get\<close> returns the oldest, the choice that favours the
  order of insertion most, and no statement below depends on it.
\<close>

definition entry_less ::
  "(MessageType \<times> 'm option \<Rightarrow> MessageType \<times> 'm option \<Rightarrow> bool) \<Rightarrow> 'm event \<Rightarrow> 'm event \<Rightarrow> bool" where
  "entry_less pl x y =
     (fst x < fst y \<or>
      (fst x = fst y \<and>
       (fst (snd x) < fst (snd y) \<or>
        (fst (snd x) = fst (snd y) \<and> pl (snd (snd x)) (snd (snd y))))))"

fun pq_min ::
  "(MessageType \<times> 'm option \<Rightarrow> MessageType \<times> 'm option \<Rightarrow> bool) \<Rightarrow> 'm event \<Rightarrow> 'm event list \<Rightarrow> 'm event" where
  "pq_min pl best [] = best"
| "pq_min pl best (x # xs) = pq_min pl (if entry_less pl x best then x else best) xs"

definition pq_put :: "'m event list \<Rightarrow> 'm event \<Rightarrow> 'm event list" where
  "pq_put q e = q @ [e]"

definition pq_get ::
  "(MessageType \<times> 'm option \<Rightarrow> MessageType \<times> 'm option \<Rightarrow> bool) \<Rightarrow> 'm event list \<Rightarrow>
   ('m event \<times> 'm event list) option" where
  "pq_get pl q =
     (case q of
        [] \<Rightarrow> None
      | x # xs \<Rightarrow> Some (pq_min pl x xs, remove1 (pq_min pl x xs) q))"

text \<open>
  The state of the kernel during a run. \<open>draws\<close> counts the latency noise values drawn so
  far, \<open>agents_state\<close> is the state of the agents, and \<open>callback_log\<close> records every call of
  \<open>wakeup\<close> or \<open>receiveMessage\<close> as it is entered: the agent, the kind of event, the time
  passed to the callback, \<open>agentCurrentTimes[agent]\<close> and \<open>currentTime\<close> at that moment.
\<close>

record ('s, 'm) Kernel =
  messages :: "'m event list"
  currentTime :: "int option"
  stopTime :: int
  agentCurrentTimes :: "int list"
  agentComputationDelays :: "int list"
  agentLatency :: "int list list"
  currentAgentAdditionalDelay :: int
  draws :: nat
  agents_state :: 's
  callback_log :: "(nat \<times> MessageType \<times> int \<times> int \<times> int option) list"

text \<open>
  \<open>sendMessage\<close>: the three checks for \<open>None\<close>, the computation delay and the latency read
  by index (IndexError out of range), and the entry put into the queue, at \<open>currentTime\<close>
  plus the delays, the latency and the noise. \<open>currentTime\<close> is \<open>None\<close> until the run loop
  starts; there the sum is pandas' \<open>NaT\<close>, with which the code queues the message and
  returns: the model, whose times are integers, ends there with \<open>NotATime\<close>.
\<close>

definition sendMessage ::
  "('s, 'm) Environment \<Rightarrow> ('s, 'm) Kernel \<Rightarrow> nat option \<Rightarrow> nat option \<Rightarrow> 'm option \<Rightarrow> int \<Rightarrow>
   error + ('s, 'm) Kernel" where
  "sendMessage env k sender recipient msg delay =
     (case sender of
        None \<Rightarrow> Inl ValueError
      | Some sender' \<Rightarrow>
     (case recipient of
        None \<Rightarrow> Inl ValueError
      | Some recipient' \<Rightarrow>
     (case msg of
        None \<Rightarrow> Inl ValueError
      | Some _ \<Rightarrow>
          if sender' \<ge> length (agentComputationDelays k) then Inl IndexError
          else if sender' \<ge> length (agentLatency k) then Inl IndexError
          else if recipient' \<ge> length (agentLatency k ! sender') then Inl IndexError
          else
            (case currentTime k of
               None \<Rightarrow> Inl NotATime
             | Some now \<Rightarrow>
                 Inr (k\<lparr>messages :=
                          pq_put (messages k)
                            (now + (agentComputationDelays k ! sender' +
                                    currentAgentAdditionalDelay k + delay) +
                             (agentLatency k ! sender' ! recipient' + noise env (draws k)),
                             (recipient', MESSAGE, msg)),
                        draws := Suc (draws k)\<rparr>)))))"

text \<open>
  \<open>setWakeup\<close>. Without a requested time the code evaluates \<open>pd.TimeDelta\<close>, which pandas
  does not have.
\<close>

definition setWakeup ::
  "('s, 'm) Kernel \<Rightarrow> nat option \<Rightarrow> int option \<Rightarrow> error + ('s, 'm) Kernel" where
  "setWakeup k sender requestedTime =
     (case requestedTime of
        None \<Rightarrow> Inl AttributeError
      | Some requestedTime' \<Rightarrow>
     (case sender of
        None \<Rightarrow> Inl ValueError
      | Some sender' \<Rightarrow>
          if (case currentTime k of None \<Rightarrow> False | Some now \<Rightarrow> requestedTime' < now)
          then Inl ValueError
          else Inr (k\<lparr>messages :=
                        pq_put (messages k) (requestedTime', (sender', WAKEUP, None))\<rparr>)))"

definition setAgentComputeDelay ::
  "('s, 'm) Kernel \<Rightarrow> nat \<Rightarrow> int \<Rightarrow> error + ('s, 'm) Kernel" where
  "setAgentComputeDelay k sender requestedDelay =
     (if \<not> requestedDelay \<ge> 0 then Inl ValueError
      else if sender \<ge> length (agentComputationDelays k) then Inl IndexError
      else Inr (k\<lparr>agentComputationDelays :=
                    (agentComputationDelays k)[sender := requestedDelay]\<rparr>))"

definition delayAgent ::
  "('s, 'm) Kernel \<Rightarrow> nat \<Rightarrow> int \<Rightarrow> error + ('s, 'm) Kernel" where
  "delayAgent k sender additionalDelay =
     (if \<not> additionalDelay \<ge> 0 then Inl ValueError
      else Inr (k\<lparr>currentAgentAdditionalDelay :=
                    currentAgentAdditionalDelay k + additionalDelay\<rparr>))"

text \<open>The calls a callback makes, in order; an exception ends the callback and the run.\<close>

fun kernel_call ::
  "('s, 'm) Environment \<Rightarrow> ('s, 'm) Kernel \<Rightarrow> 'm KernelCall \<Rightarrow> error + ('s, 'm) Kernel" where
  "kernel_call env k (SendMessage sender recipient msg delay) =
     sendMessage env k sender recipient msg delay"
| "kernel_call env k (SetWakeup sender requestedTime) = setWakeup k sender requestedTime"
| "kernel_call env k (SetAgentComputeDelay sender requestedDelay) =
     setAgentComputeDelay k sender requestedDelay"
| "kernel_call env k (DelayAgent sender additionalDelay) = delayAgent k sender additionalDelay"

fun kernel_calls ::
  "('s, 'm) Environment \<Rightarrow> ('s, 'm) Kernel \<Rightarrow> 'm KernelCall list \<Rightarrow> error + ('s, 'm) Kernel" where
  "kernel_calls env k [] = Inr k"
| "kernel_calls env k (c # cs) =
     (case kernel_call env k c of
        Inl e \<Rightarrow> Inl e
      | Inr k' \<Rightarrow> kernel_calls env k' cs)"

text \<open>
  What the run loop does with a popped WAKEUP or MESSAGE event for \<open>agent\<close>, the kernel's
  \<open>currentTime\<close> being the event's time \<open>t\<close> already (the two branches of the loop are the
  same but for the callback): an agent whose clock is ahead of \<open>t\<close> has the event put back
  at its clock; otherwise its clock is set to \<open>t\<close>, the callback runs, and the clock is
  advanced by the computation delay and the delay accumulated during the callback.
\<close>

definition dispatch ::
  "('s, 'm) Environment \<Rightarrow> ('s, 'm) Kernel \<Rightarrow> int \<Rightarrow> nat \<Rightarrow> MessageType \<Rightarrow> 'm option \<Rightarrow>
   error + ('s, 'm) Kernel" where
  "dispatch env k t agent msg_type msg =
     (if agent \<ge> length (agentCurrentTimes k) then Inl IndexError
      else if agentCurrentTimes k ! agent > t then
        Inr (k\<lparr>messages :=
                 pq_put (messages k) (agentCurrentTimes k ! agent, (agent, msg_type, msg))\<rparr>)
      else
        (let k1 = k\<lparr>agentCurrentTimes := (agentCurrentTimes k)[agent := t]\<rparr>;
             k2 = k1\<lparr>callback_log :=
                       callback_log k1 @
                         [(agent, msg_type, t, agentCurrentTimes k1 ! agent, currentTime k1)]\<rparr>;
             (s', calls) =
               (if msg_type = WAKEUP then wakeup env agent t (agents_state k2)
                else receiveMessage env agent t msg (agents_state k2))
         in case kernel_calls env (k2\<lparr>agents_state := s'\<rparr>) calls of
              Inl e \<Rightarrow> Inl e
            | Inr k3 \<Rightarrow>
                if agent \<ge> length (agentComputationDelays k3) then Inl IndexError
                else
                  Inr (k3\<lparr>agentCurrentTimes :=
                           (agentCurrentTimes k3)
                             [agent := agentCurrentTimes k3 ! agent +
                                (agentComputationDelays k3 ! agent +
                                 currentAgentAdditionalDelay k3)]\<rparr>)))"

text \<open>
  One pass through the body of the \<open>while\<close> loop of \<open>runner\<close>: pop the lowest entry, make
  its time the current time, reset the additional delay, and dispatch by message type.
  The loop enters its body with a non-empty queue only.
\<close>

definition runner_step ::
  "('s, 'm) Environment \<Rightarrow> ('s, 'm) Kernel \<Rightarrow> error + ('s, 'm) Kernel" where
  "runner_step env k =
     (case pq_get (payload_less env) (messages k) of
        None \<Rightarrow> Inr k
      | Some ((t, (msg_recipient, msg_type, msg)), rest) \<Rightarrow>
          (let k' = k\<lparr>messages := rest, currentTime := Some t,
                      currentAgentAdditionalDelay := 0\<rparr>
           in if msg_type = WAKEUP then dispatch env k' t msg_recipient msg_type msg
              else if msg_type = MESSAGE then dispatch env k' t msg_recipient msg_type msg
              else Inl AttributeError))"

text \<open>
  The \<open>while\<close> loop of \<open>runner\<close>: it goes on while the queue is not empty, the current time
  is set and the current time is not after \<open>stopTime\<close>. The agents may keep it going
  for ever, so the loop is given fuel: \<open>None\<close> says that the fuel did not suffice.
\<close>

fun runner_loop ::
  "nat \<Rightarrow> ('s, 'm) Environment \<Rightarrow> ('s, 'm) Kernel \<Rightarrow> (error + ('s, 'm) Kernel) option" where
  "runner_loop 0 env k = None"
| "runner_loop (Suc fuel) env k =
     (if messages k \<noteq> [] \<and>
         (case currentTime k of None \<Rightarrow> False | Some now \<Rightarrow> now \<le> stopTime k)
      then
        (case runner_step env k of
           Inl e \<Rightarrow> Some (Inl e)
         | Inr k' \<Rightarrow> runner_loop fuel env k')
      else Some (Inr k))"

section \<open>The shape of a book\<close>

text \<open>
  A level of a well-formed side is non-empty, holds orders of that side only, all with a
  positive quantity and at the price of its head. The levels of a well-formed side are
  strictly ordered by the price of their heads: bids falling, asks rising.
\<close>

definition level_price :: "level \<Rightarrow> int" where
  "level_price l = limit_price (hd l)"

definition level_ok :: "bool \<Rightarrow> level \<Rightarrow> bool" where
  "level_ok buy l =
     (l \<noteq> [] \<and>
      (\<forall>x \<in> set l. is_buy_order x = buy \<and> 0 < quantity x \<and> limit_price x = level_price l))"

definition better :: "bool \<Rightarrow> int \<Rightarrow> int \<Rightarrow> bool" where
  "better buy p q = (if buy then q < p else p < q)"

definition side_ok :: "bool \<Rightarrow> level list \<Rightarrow> bool" where
  "side_ok buy side =
     ((\<forall>l \<in> set side. level_ok buy l) \<and>
      sorted_wrt (\<lambda>l l'. better buy (level_price l) (level_price l')) side)"

text \<open>No resting bid is priced at or above a resting ask.\<close>

definition no_cross :: "OrderBook \<Rightarrow> bool" where
  "no_cross b =
     (\<forall>x \<in> set (concat (bids b)). \<forall>y \<in> set (concat (asks b)). limit_price x < limit_price y)"

definition book_ok :: "OrderBook \<Rightarrow> bool" where
  "book_ok b = (side_ok True (bids b) \<and> side_ok False (asks b) \<and> no_cross b)"

text \<open>
  The best price of a side, as \<open>getInsideBids\<close> and \<open>getInsideAsks\<close> read it: the limit
  price of the first order of the first level.
\<close>

definition best_price :: "level list \<Rightarrow> int option" where
  "best_price side = (case side of (x # _) # _ \<Rightarrow> Some (limit_price x) | _ \<Rightarrow> None)"

text \<open>
  The books the code can hold: an \<open>OrderBook\<close> starts empty, its bids and asks are changed
  by \<open>handleLimitOrder\<close> and \<open>cancelOrder\<close> only, and its owner may assign \<open>last_trade\<close> (as it
  has to before the first order, \<open>prettyPrint\<close> raising on \<open>None\<close>). A call of
  \<open>handleLimitOrder\<close> that raises in the bookkeeping after its loop, or in the second
  \<open>prettyPrint\<close>, leaves the bids and asks as the loop left them, and \<open>last_trade\<close> as it was
  or set to the average price: these books are the rule \<open>limit_raised\<close>, with \<open>owner_sets\<close>.
  A call that raises in the first \<open>prettyPrint\<close> has not touched the book, and on the
  books below the loop itself does not raise (\<open>handleLimitOrder_loop_ok\<close>).
\<close>

inductive reachable :: "OrderBook \<Rightarrow> bool" where
  init: "reachable (OrderBook_init s)"
| owner_sets: "reachable b \<Longrightarrow> reachable (b\<lparr>book_last_trade := v\<rparr>)"
| limit: "reachable b \<Longrightarrow> handleLimitOrder owner b order' = Inr (b', sent) \<Longrightarrow> reachable b'"
| limit_raised:
    "reachable b \<Longrightarrow> symbol order' = book_symbol b \<Longrightarrow> 0 < quantity order' \<Longrightarrow>
     handleLimitOrder_loop b order' [] [] = Inr (b', sent, executed) \<Longrightarrow> reachable b'"
| cancel: "reachable b \<Longrightarrow> cancelOrder b order' = Inr (b', sent) \<Longrightarrow> reachable b'"

section \<open>What a call of handleLimitOrder matches\<close>

text \<open>
  The side an incoming order is matched against (\<open>book\<close> in \<open>executeOrder\<close>), and the
  vocabulary for what a call of \<open>handleLimitOrder\<close> did: \<open>same_order r m\<close> says that \<open>m\<close> is
  a copy of the order \<open>r\<close> up to \<open>quantity\<close> and \<open>fill_price\<close>; \<open>match_msgs (f, m)\<close> are the
  two ORDER_EXECUTED messages of one match, \<open>f\<close> the filled part of the incoming order and
  \<open>m\<close> the filled part of the resting order.
\<close>

definition opposite_side :: "OrderBook \<Rightarrow> LimitOrder \<Rightarrow> level list" where
  "opposite_side b order' = (if is_buy_order order' then asks b else bids b)"

definition own_side :: "OrderBook \<Rightarrow> LimitOrder \<Rightarrow> level list" where
  "own_side b order' = (if is_buy_order order' then bids b else asks b)"

definition same_order :: "LimitOrder \<Rightarrow> LimitOrder \<Rightarrow> bool" where
  "same_order r m = (m = r\<lparr>quantity := quantity m, fill_price := fill_price m\<rparr>)"

definition match_msgs :: "LimitOrder \<times> LimitOrder \<Rightarrow> outbox" where
  "match_msgs p =
     [(agent_id (fst p), ORDER_EXECUTED (fst p)), (agent_id (snd p), ORDER_EXECUTED (snd p))]"

definition matched_with :: "LimitOrder \<Rightarrow> LimitOrder \<Rightarrow> LimitOrder \<times> LimitOrder \<Rightarrow> bool" where
  "matched_with order' r p =
     (same_order r (snd p) \<and> same_order order' (fst p) \<and>
      quantity (fst p) = quantity (snd p) \<and>
      fill_price (snd p) = Some (limit_price r) \<and>
      fill_price (fst p) = Some (limit_price r))"

definition fully_filled :: "LimitOrder \<Rightarrow> LimitOrder \<times> LimitOrder \<Rightarrow> bool" where
  "fully_filled r p = (quantity (snd p) = quantity r)"

text \<open>
  \<open>consumed_from_head Q Q' pairs\<close>: the queue \<open>Q'\<close> is what is left of the queue \<open>Q\<close> after
  the matches \<open>pairs\<close> took its orders from the head, one match per order: either every
  matched order was filled completely and is gone, or the last match filled its order
  only in part, and that order stays at the head with the rest of its quantity.
\<close>

definition consumed_from_head ::
  "LimitOrder list \<Rightarrow> LimitOrder list \<Rightarrow> (LimitOrder \<times> LimitOrder) list \<Rightarrow> bool" where
  "consumed_from_head Q Q' pairs =
     ((Q' = drop (length pairs) Q \<and>
       list_all2 fully_filled (take (length pairs) Q) pairs) \<or>
      (pairs \<noteq> [] \<and>
       quantity (snd (last pairs)) < quantity (Q ! (length pairs - 1)) \<and>
       Q' = (Q ! (length pairs - 1))
              \<lparr>quantity := quantity (Q ! (length pairs - 1)) - quantity (snd (last pairs))\<rparr> #
            drop (length pairs) Q \<and>
       list_all2 fully_filled (take (length pairs - 1) Q) (butlast pairs)))"

text \<open>
  \<open>entered_behind buy x own own'\<close>: the queue \<open>own'\<close> is the queue \<open>own\<close> of one side (the orders
  of its levels, best price first, oldest first within a level) with the order \<open>x\<close> entered
  behind every order whose price is as good as the price of \<open>x\<close> or better, and ahead of
  every order with a worse price.
\<close>

definition entered_behind ::
  "bool \<Rightarrow> LimitOrder \<Rightarrow> LimitOrder list \<Rightarrow> LimitOrder list \<Rightarrow> bool" where
  "entered_behind buy x own own' =
     (\<exists>pre post.
        own = pre @ post \<and> own' = pre @ x # post \<and>
        (\<forall>y \<in> set pre. \<not> better buy (limit_price x) (limit_price y)) \<and>
        (\<forall>y \<in> set post. better buy (limit_price x) (limit_price y)))"

text \<open>
  What the loop of \<open>handleLimitOrder\<close> did for the order \<open>order'\<close>, from the opposite side
  \<open>Q\<close> and the order's own side \<open>own\<close> before to \<open>Q'\<close> and \<open>own'\<close> after, with the messages
  \<open>msgs\<close>: a list of matches, which took orders from the head of \<open>Q\<close>; then either nothing
  more, and the own side is as it was, or one ORDER_ACCEPTED for the rest of the order,
  which \<open>enterOrder\<close> has put on its own side.
\<close>

definition loop_result ::
  "LimitOrder \<Rightarrow> LimitOrder list \<Rightarrow> LimitOrder list \<Rightarrow> level list \<Rightarrow> level list \<Rightarrow>
   outbox \<Rightarrow> bool" where
  "loop_result order' Q Q' own own' msgs =
     (\<exists>pairs tail.
        msgs = concat (map match_msgs pairs) @ tail \<and>
        ((tail = [] \<and> own' = own) \<or>
         (\<exists>x. same_order order' x \<and> tail = [(agent_id order', ORDER_ACCEPTED x)] \<and>
              enterOrder_side x own = Inr own')) \<and>
        list_all2 (matched_with order') (take (length pairs) Q) pairs \<and>
        consumed_from_head Q Q' pairs)"

section \<open>Holdings that can be marked to market\<close>

text \<open>
  \<open>marks_fit lt h\<close>: for every symbol held other than CASH that has a last trade, the
  last trade and the value of the position, the two amounts that the loop of
  \<open>markToMarket\<close> formats with \<open>dollarize\<close>, are within the doubles.
\<close>

definition marks_fit :: "(string \<rightharpoonup> int) \<Rightarrow> (string \<times> int) list \<Rightarrow> bool" where
  "marks_fit lt h =
     (\<forall>(s, n) \<in> set h. \<forall>p. s \<noteq> ''CASH'' \<longrightarrow> lt s = Some p \<longrightarrow>
        \<not> true_div_overflows p 100 \<and> \<not> true_div_overflows (p * n) 100)"

section \<open>Callbacks in order\<close>

text \<open>
  An entry of the callback log is in order when the time passed to the callback is the
  agent's clock and the kernel's current time.
\<close>

definition callback_times_ok :: "nat \<times> MessageType \<times> int \<times> int \<times> int option \<Rightarrow> bool" where
  "callback_times_ok c = (case c of (a, ty, t, clock, now) \<Rightarrow> clock = t \<and> now = Some t)"

section \<open>Books, agents and kernels to run\<close>

text \<open>
  An oracle with a series of three values for the symbol X, and an owner of a book whose
  clock is at 1 and whose average price is the integer quotient.
\<close>

definition oracle3 :: MeanRevertingOracle where
  "oracle3 = \<lparr>mkt_open = 0, mkt_close = 3,
              oracle_r = [''X'' \<mapsto> [0 \<mapsto> 100, 1 \<mapsto> 101, 2 \<mapsto> 99]]\<rparr>"

definition owner_X :: BookOwner where
  "owner_X = \<lparr>owner_currentTime = 1, owner_oracle = oracle3,
              avg_price = (\<lambda>trade_price trade_qty. trade_price div trade_qty)\<rparr>"

text \<open>
  Three orders for the symbol X, entered one after the other into an empty book whose
  owner has set the last trade: two asks that rest, then a buy that crosses the first
  ask, fills it at the ask's price and rests with what is left.
\<close>

definition mk_order :: "nat \<Rightarrow> nat \<Rightarrow> bool \<Rightarrow> int \<Rightarrow> int \<Rightarrow> LimitOrder" where
  "mk_order oid agent buy qty price =
     \<lparr>agent_id = agent, time_placed = 0, symbol = ''X'', quantity = qty,
      is_buy_order = buy, limit_price = price, order_id = oid, fill_price = None\<rparr>"

definition book0 :: OrderBook where
  "book0 = (OrderBook_init ''X'')\<lparr>book_last_trade := Some 10000\<rparr>"

definition book1 :: OrderBook where
  "book1 = \<lparr>book_symbol = ''X'', bids = [], asks = [[mk_order 1 1 False 50 10100]],
            book_last_trade = Some 10000\<rparr>"

definition book2 :: OrderBook where
  "book2 = \<lparr>book_symbol = ''X'', bids = [],
            asks = [[mk_order 1 1 False 50 10100], [mk_order 2 1 False 10 10300]],
            book_last_trade = Some 10000\<rparr>"

definition book3 :: OrderBook where
  "book3 = \<lparr>book_symbol = ''X'', bids = [[mk_order 3 2 True 30 10200]],
            asks = [[mk_order 2 1 False 10 10300]], book_last_trade = Some 10100\<rparr>"

text \<open>
  An ask at 100 resting in a book, to be hit by a buy at 102; and the two asks X and Y of
  the same price 10000, to be entered one after the other and hit by a buy.
\<close>

definition book_ask100 :: OrderBook where
  "book_ask100 = \<lparr>book_symbol = ''X'', bids = [], asks = [[mk_order 1 1 False 10 100]],
                  book_last_trade = Some 10000\<rparr>"

definition order_X :: LimitOrder where "order_X = mk_order 1 1 False 10 10000"

definition order_Y :: LimitOrder where "order_Y = mk_order 2 3 False 10 10000"

definition book_X :: OrderBook where
  "book_X = \<lparr>book_symbol = ''X'', bids = [], asks = [[order_X]],
             book_last_trade = Some 10000\<rparr>"

definition book_XY :: OrderBook where
  "book_XY = \<lparr>book_symbol = ''X'', bids = [], asks = [[order_X, order_Y]],
              book_last_trade = Some 10000\<rparr>"

definition book_Y :: OrderBook where
  "book_Y = \<lparr>book_symbol = ''X'', bids = [], asks = [[order_Y]],
             book_last_trade = Some 10000\<rparr>"

text \<open>
  A trading agent with 100,000 in cash, no position, and a last trade of 1000 for X.
\<close>

definition trader :: TradingAgent where
  "trader = \<lparr>agent_self_id = 5, agent_currentTime = 0, startingCash = 100000,
             holdings = [(''CASH'', 100000)], orders = Map.empty,
             last_trade = [''X'' \<mapsto> 1000], exchangeID = 0, sent_messages = []\<rparr>"

definition trader_unquoted :: TradingAgent where
  "trader_unquoted = \<lparr>agent_self_id = 5, agent_currentTime = 0, startingCash = 100000,
             holdings = [(''CASH'', 100000)], orders = Map.empty,
             last_trade = Map.empty, exchangeID = 0, sent_messages = []\<rparr>"

text \<open>
  Agents that do nothing in their callbacks, no latency noise, and a kernel at time 0 with
  an empty queue, given its stop time, the clocks and the computation delays of its agents.
\<close>

definition idle_env :: "(unit, unit) Environment" where
  "idle_env = \<lparr>wakeup = (\<lambda>agent t s. (s, [])),
               receiveMessage = (\<lambda>agent t msg s. (s, [])),
               payload_less = (\<lambda>x y. False),
               noise = (\<lambda>n. 0)\<rparr>"

definition kernel0 :: "int \<Rightarrow> int list \<Rightarrow> int list \<Rightarrow> (unit, unit) Kernel" where
  "kernel0 stop clocks delays =
     \<lparr>messages = [], currentTime = Some 0, stopTime = stop, agentCurrentTimes = clocks,
      agentComputationDelays = delays, agentLatency = map (\<lambda>_. map (\<lambda>_. 1) clocks) clocks,
      currentAgentAdditionalDelay = 0, draws = 0, agents_state = (), callback_log = []\<rparr>"

text \<open>
  One agent with a computation delay of 1,000,000 ns, woken at 5000 with a second wakeup
  queued for 5001: \<open>kernel_busy\<close> is the kernel after the first wakeup.
\<close>

definition kernel_busy :: "(unit, unit) Kernel" where
  "kernel_busy = (kernel0 10000000 [0] [1000000])
     \<lparr>messages := [(5001, (0, WAKEUP, None))], currentTime := Some 5000,
      agentCurrentTimes := [1005000],
      callback_log := [(0, WAKEUP, 5000, 5000, Some 5000)]\<rparr>"

text \<open>Two agents; and one agent with a stop time of 10 and wakeups queued for 20 and 30.\<close>

definition kernel_tie :: "(unit, unit) Kernel" where
  "kernel_tie = kernel0 100 [0, 0] [1, 1]"

definition kernel_stop :: "(unit, unit) Kernel" where
  "kernel_stop = (kernel0 10 [0] [1])
     \<lparr>messages := [(20, (0, WAKEUP, None)), (30, (0, WAKEUP, None))]\<rparr>"

section \<open>Termination of the matching loop\<close>

lemma executeOrder_scan_size:
  "executeOrder_scan order' book = Inr (Some m, book') \<Longrightarrow>
   quantity order' - quantity m > 0 \<Longrightarrow>
   length (concat book') < length (concat book)"
proof (induction order' book arbitrary: m book' rule: executeOrder_scan.induct)
  case (3 order' o0 os rest)
  show ?case
  proof (cases "isMatch order' o0")
    case True
    with "3.prems" show ?thesis by (auto split: if_splits)
  next
    case False
    with "3.prems" obtain rest' where
      r: "executeOrder_scan order' rest = Inr (Some m, rest')" and
      b: "book' = (o0 # os) # rest'"
      by (auto split: sum.splits)
    from "3.IH"[OF False r "3.prems"(2)] b show ?thesis by simp
  qed
qed simp_all

lemma executeOrder_size:
  assumes "executeOrder b order' = Inr (Some m, b')"
    and "quantity order' - quantity m > 0"
  shows "opposite_size b' order' < opposite_size b order'"
proof (cases "is_buy_order order'")
  case True
  with assms(1) obtain book' where
    s: "executeOrder_side order' (asks b) = Inr (Some m, book')" and
    b: "b' = b\<lparr>asks := book'\<rparr>"
    by (auto simp: executeOrder_def split: sum.splits)
  from s have "executeOrder_scan order' (asks b) = Inr (Some m, book')"
    by (auto simp: executeOrder_side_def split: list.splits if_splits)
  from executeOrder_scan_size[OF this assms(2)] True b show ?thesis
    by (simp add: opposite_size_def)
next
  case False
  with assms(1) obtain book' where
    s: "executeOrder_side order' (bids b) = Inr (Some m, book')" and
    b: "b' = b\<lparr>bids := book'\<rparr>"
    by (auto simp: executeOrder_def split: sum.splits)
  from s have "executeOrder_scan order' (bids b) = Inr (Some m, book')"
    by (auto simp: executeOrder_side_def split: list.splits if_splits)
  from executeOrder_scan_size[OF this assms(2)] False b show ?thesis
    by (simp add: opposite_size_def)
qed

termination handleLimitOrder_loop
proof (relation "measure (\<lambda>(b, order', sent, executed). opposite_size b order')")
  show "wf (measure (\<lambda>(b, order', sent, executed). opposite_size b order'))" by simp
next
  fix b order' sent executed x2 x1 b' m
  assume "executeOrder b order' = Inr x2" "(x1, b') = x2" "x1 = Some m"
    "\<not> quantity order' - quantity m \<le> 0"
  then have "opposite_size b' order' < opposite_size b order'"
    using executeOrder_size[of b order' m b'] by simp
  then show "((b', order'\<lparr>quantity := quantity order' - quantity m\<rparr>,
               sent @ [(agent_id order', ORDER_EXECUTED
                          (order'\<lparr>quantity := quantity m, fill_price := fill_price m\<rparr>)),
                       (agent_id m, ORDER_EXECUTED m)],
               executed @ [(quantity m, fill_price m)]),
              (b, order', sent, executed))
             \<in> measure (\<lambda>(b, order', sent, executed). opposite_size b order')"
    by (simp add: opposite_size_def)
qed

section \<open>The book stays well-formed\<close>

lemma better_trans: "better buy p q \<Longrightarrow> better buy q r \<Longrightarrow> better buy p r"
  by (auto simp: better_def split: if_splits)

lemma side_ok_Nil: "side_ok buy []"
  by (simp add: side_ok_def)

lemma side_ok_Cons:
  "side_ok buy (l # side) =
     (level_ok buy l \<and> (\<forall>l' \<in> set side. better buy (level_price l) (level_price l')) \<and>
      side_ok buy side)"
  by (auto simp: side_ok_def)

lemma level_ok_price:
  "level_ok buy l \<Longrightarrow> x \<in> set l \<Longrightarrow> limit_price x = level_price l"
  by (simp add: level_ok_def)

lemma level_ok_tl:
  "level_ok buy (x # y # ys) \<Longrightarrow> level_ok buy (y # ys) \<and> level_price (y # ys) = level_price (x # y # ys)"
  by (auto simp: level_ok_def level_price_def)

lemma level_ok_reduce:
  "level_ok buy (x # xs) \<Longrightarrow> 0 < q \<Longrightarrow>
   level_ok buy (x\<lparr>quantity := q\<rparr> # xs) \<and>
   level_price (x\<lparr>quantity := q\<rparr> # xs) = level_price (x # xs)"
  by (auto simp: level_ok_def level_price_def)

lemma level_ok_snoc:
  "level_ok buy l \<Longrightarrow> is_buy_order x = buy \<Longrightarrow> 0 < quantity x \<Longrightarrow>
   limit_price x = level_price l \<Longrightarrow>
   level_ok buy (l @ [x]) \<and> level_price (l @ [x]) = level_price l"
proof -
  assume a: "level_ok buy l" "is_buy_order x = buy" "0 < quantity x"
    "limit_price x = level_price l"
  from a(1) have ne: "l \<noteq> []" by (simp add: level_ok_def)
  then have p: "level_price (l @ [x]) = level_price l" by (simp add: level_price_def)
  from a ne show ?thesis unfolding level_ok_def p by auto
qed

lemma level_ok_single:
  "is_buy_order x = buy \<Longrightarrow> 0 < quantity x \<Longrightarrow> level_ok buy [x] \<and> level_price [x] = limit_price x"
  by (auto simp: level_ok_def level_price_def)

text \<open>Every resting order of a well-formed side is priced no better than the head of the first level.\<close>

lemma side_ok_head_best:
  assumes "side_ok buy ((x # xs) # rest)" "y \<in> set (concat ((x # xs) # rest))"
  shows "limit_price y = limit_price x \<or> better buy (limit_price x) (limit_price y)"
proof -
  from assms(1) have l: "level_ok buy (x # xs)"
    and b: "\<forall>l' \<in> set rest. better buy (level_price (x # xs)) (level_price l')"
    and r: "\<forall>l' \<in> set rest. level_ok buy l'"
    by (auto simp: side_ok_Cons side_ok_def)
  have px: "level_price (x # xs) = limit_price x" by (simp add: level_price_def)
  from assms(2) consider "y \<in> set (x # xs)" | l' where "l' \<in> set rest" "y \<in> set l'"
    by auto
  then show ?thesis
  proof cases
    case 1
    with l px show ?thesis by (auto simp: level_ok_def)
  next
    case 2
    with r have "limit_price y = level_price l'" by (auto simp: level_ok_def)
    with b 2 px show ?thesis by auto
  qed
qed

lemma isMatch_opposite:
  "is_buy_order order' = (\<not> buy) \<Longrightarrow> is_buy_order x = buy \<Longrightarrow>
   isMatch order' x = (\<not> better buy (limit_price order') (limit_price x))"
  by (auto simp: isMatch_def better_def)

lemma executeOrder_side_ok:
  assumes s: "side_ok buy side" and o: "is_buy_order order' = (\<not> buy)"
    and q: "0 < quantity order'"
  shows "(executeOrder_side order' side = Inr (None, side) \<and>
          (\<forall>y \<in> set (concat side). better buy (limit_price order') (limit_price y)))
       \<or> (\<exists>m side'. executeOrder_side order' side = Inr (Some m, side') \<and>
            side_ok buy side' \<and>
            limit_price ` set (concat side') \<subseteq> limit_price ` set (concat side) \<and>
            0 < quantity m \<and> quantity m \<le> quantity order')"
proof (cases side)
  case Nil
  then show ?thesis by (simp add: executeOrder_side_def)
next
  case (Cons l rest)
  with s have l: "level_ok buy l" and r: "side_ok buy rest"
    and b: "\<forall>l' \<in> set rest. better buy (level_price l) (level_price l')"
    by (simp_all add: side_ok_Cons)
  from l obtain x xs where lx: "l = x # xs" by (cases l) (auto simp: level_ok_def)
  from l lx have xb: "is_buy_order x = buy" and xq: "0 < quantity x"
    by (auto simp: level_ok_def)
  have px: "level_price (x # xs) = limit_price x" by (simp add: level_price_def)
  show ?thesis
  proof (cases "isMatch order' x")
    case False
    then have e: "executeOrder_side order' side = Inr (None, side)"
      by (simp add: executeOrder_side_def Cons lx)
    from False have bx: "better buy (limit_price order') (limit_price x)"
      by (simp add: isMatch_opposite[OF o xb])
    have "better buy (limit_price order') (limit_price y)" if "y \<in> set (concat side)" for y
    proof -
      from side_ok_head_best[of buy x xs rest y] s that Cons lx
      have "limit_price y = limit_price x \<or> better buy (limit_price x) (limit_price y)"
        by simp
      with bx show ?thesis by (auto simp: better_def split: if_splits)
    qed
    with e show ?thesis by blast
  next
    case True
    show ?thesis
    proof (cases "quantity order' \<ge> quantity x")
      case full: True
      let ?m = "x\<lparr>fill_price := Some (limit_price x)\<rparr>"
      let ?side' = "if xs = [] then rest else xs # rest"
      from True full have e: "executeOrder_side order' side = Inr (Some ?m, ?side')"
        by (simp add: executeOrder_side_def Cons lx)
      have ok: "side_ok buy ?side'"
      proof (cases xs)
        case Nil
        with r show ?thesis by simp
      next
        case (Cons y ys)
        with l lx level_ok_tl[of buy x y ys]
        have "level_ok buy xs" "level_price xs = level_price l" by simp_all
        with b r Cons show ?thesis by (simp add: side_ok_Cons)
      qed
      have sub: "limit_price ` set (concat ?side') \<subseteq> limit_price ` set (concat side)"
        by (auto simp: Cons lx)
      from e ok sub xq full show ?thesis by auto
    next
      case part: False
      let ?m = "x\<lparr>quantity := quantity order', fill_price := Some (limit_price x)\<rparr>"
      let ?x' = "x\<lparr>quantity := quantity x - quantity order'\<rparr>"
      let ?side' = "(?x' # xs) # rest"
      from True part have e: "executeOrder_side order' side = Inr (Some ?m, ?side')"
        by (simp add: executeOrder_side_def Cons lx)
      from part have "0 < quantity x - quantity order'" by simp
      from level_ok_reduce[OF l[unfolded lx] this]
      have "level_ok buy (?x' # xs)" "level_price (?x' # xs) = level_price l"
        by (simp_all add: lx)
      with b r have ok: "side_ok buy ?side'" by (simp add: side_ok_Cons)
      have sub: "limit_price ` set (concat ?side') \<subseteq> limit_price ` set (concat side)"
        by (auto simp: Cons lx)
      from e ok sub q show ?thesis by auto
    qed
  qed
qed

lemma isBetterPrice_same:
  "is_buy_order order' = buy \<Longrightarrow> is_buy_order x = buy \<Longrightarrow>
   isBetterPrice order' x = better buy (limit_price order') (limit_price x)"
  by (auto simp: isBetterPrice_def better_def)

lemma better_trichotomy: "p \<noteq> q \<Longrightarrow> \<not> better buy p q \<Longrightarrow> better buy q p"
  by (auto simp: better_def split: if_splits)

lemma enterOrder_scan_ok:
  assumes "side_ok buy side" and o: "is_buy_order order' = buy" and q: "0 < quantity order'"
    and "side \<noteq> []"
    and "limit_price order' = level_price (last side) \<or>
         better buy (limit_price order') (level_price (last side))"
  shows "\<exists>side'. enterOrder_scan order' side = Inr side' \<and> side_ok buy side' \<and>
           set (concat side') = insert order' (set (concat side)) \<and>
           level_price ` set side' \<subseteq> insert (limit_price order') (level_price ` set side)"
  using assms(1,4,5)
proof (induction side)
  case Nil
  then show ?case by simp
next
  case (Cons l rest)
  from Cons.prems(1) have l: "level_ok buy l" and r: "side_ok buy rest"
    and b: "\<forall>l' \<in> set rest. better buy (level_price l) (level_price l')"
    by (simp_all add: side_ok_Cons)
  from l obtain x xs where lx: "l = x # xs" by (cases l) (auto simp: level_ok_def)
  from l lx have xb: "is_buy_order x = buy" by (auto simp: level_ok_def)
  have px: "level_price l = limit_price x" by (simp add: level_price_def lx)
  note bp = isBetterPrice_same[OF o xb]
  show ?case
  proof (cases "better buy (limit_price order') (limit_price x)")
    case True
    then have e: "enterOrder_scan order' (l # rest) = Inr ([order'] # l # rest)"
      by (simp add: lx bp)
    from level_ok_single[OF o q]
    have s: "level_ok buy [order']" "level_price [order'] = limit_price order'" by simp_all
    have "better buy (limit_price order') (level_price l')" if "l' \<in> set rest" for l'
      using b that True px better_trans[of buy "limit_price order'" "limit_price x"] by auto
    with s True px Cons.prems(1) have "side_ok buy ([order'] # l # rest)"
      by (simp add: side_ok_Cons[of buy "[order']"])
    with e s show ?thesis by auto
  next
    case nb: False
    show ?thesis
    proof (cases "limit_price order' = limit_price x")
      case True
      with nb have e: "enterOrder_scan order' (l # rest) = Inr ((l @ [order']) # rest)"
        by (simp add: lx bp isEqualPrice_def)
      from level_ok_snoc[OF l o q] True px
      have "level_ok buy (l @ [order'])" "level_price (l @ [order']) = level_price l"
        by simp_all
      with b r have "side_ok buy ((l @ [order']) # rest)" by (simp add: side_ok_Cons)
      moreover have "level_price ` set ((l @ [order']) # rest) \<subseteq>
          insert (limit_price order') (level_price ` set (l # rest))"
        using \<open>level_price (l @ [order']) = level_price l\<close> by auto
      ultimately show ?thesis using e by auto
    next
      case ne: False
      from better_trichotomy[OF ne nb] have w: "better buy (limit_price x) (limit_price order')" .
      have rne: "rest \<noteq> []"
      proof
        assume "rest = []"
        with Cons.prems(3) px ne nb show False by simp
      qed
      with Cons.prems(3) have
        "limit_price order' = level_price (last rest) \<or>
         better buy (limit_price order') (level_price (last rest))" by simp
      from Cons.IH[OF r rne this] obtain rest' where
        e': "enterOrder_scan order' rest = Inr rest'" and r': "side_ok buy rest'" and
        c': "set (concat rest') = insert order' (set (concat rest))" and
        p': "level_price ` set rest' \<subseteq> insert (limit_price order') (level_price ` set rest)"
        by blast
      from e' nb ne have e: "enterOrder_scan order' (l # rest) = Inr (l # rest')"
        by (simp add: lx bp isEqualPrice_def)
      have "better buy (level_price l) (level_price l')" if "l' \<in> set rest'" for l'
      proof -
        from that p' have "level_price l' = limit_price order' \<or> level_price l' \<in> level_price ` set rest"
          by auto
        with w px b show ?thesis by auto
      qed
      with l r' have "side_ok buy (l # rest')" by (simp add: side_ok_Cons)
      with e c' p' show ?thesis by auto
    qed
  qed
qed

lemma sorted_wrt_last:
  "sorted_wrt P xs \<Longrightarrow> x \<in> set xs \<Longrightarrow> x = last xs \<or> P x (last xs)"
  by (induction xs) (auto split: if_splits)

lemma enterOrder_side_ok:
  assumes s: "side_ok buy side" and o: "is_buy_order order' = buy" and q: "0 < quantity order'"
  shows "\<exists>side'. enterOrder_side order' side = Inr side' \<and> side_ok buy side' \<and>
           set (concat side') = insert order' (set (concat side))"
proof (cases "side = []")
  case True
  with level_ok_single[OF o q] show ?thesis
    by (simp add: enterOrder_side_def side_ok_def)
next
  case False
  then have "last side \<in> set side" by simp
  with s have lw: "level_ok buy (last side)" by (simp add: side_ok_def)
  then obtain w ws where w: "last side = w # ws" by (cases "last side") (auto simp: level_ok_def)
  with lw have wb: "is_buy_order w = buy" by (auto simp: level_ok_def)
  have pw: "level_price (last side) = limit_price w" by (simp add: w level_price_def)
  note bp = isBetterPrice_same[OF o wb]
  show ?thesis
  proof (cases "limit_price order' = limit_price w \<or> better buy (limit_price order') (limit_price w)")
    case True
    then have "enterOrder_side order' side = enterOrder_scan order' side"
      using False by (auto simp: enterOrder_side_def w bp isEqualPrice_def)
    with enterOrder_scan_ok[OF s o q False] True pw show ?thesis by auto
  next
    case worse: False
    then have e: "enterOrder_side order' side = Inr (side @ [[order']])"
      using False by (auto simp: enterOrder_side_def w bp isEqualPrice_def)
    from worse have lb: "better buy (limit_price w) (limit_price order')"
      using better_trichotomy[of "limit_price order'" "limit_price w" buy] by auto
    from s have srt: "sorted_wrt (\<lambda>l l'. better buy (level_price l) (level_price l')) side"
      by (simp add: side_ok_def)
    have "better buy (level_price l) (limit_price order')" if "l \<in> set side" for l
      using sorted_wrt_last[OF srt that] lb pw
        better_trans[of buy "level_price l" "limit_price w" "limit_price order'"] by auto
    with s level_ok_single[OF o q] have "side_ok buy (side @ [[order']])"
      by (auto simp: side_ok_def sorted_wrt_append)
    with e show ?thesis by auto
  qed
qed

lemma no_crossI:
  "(\<And>x y. x \<in> set (concat (bids b)) \<Longrightarrow> y \<in> set (concat (asks b)) \<Longrightarrow>
      limit_price x < limit_price y) \<Longrightarrow> no_cross b"
  unfolding no_cross_def by (intro ballI)

lemma no_crossD:
  "no_cross b \<Longrightarrow> x \<in> set (concat (bids b)) \<Longrightarrow> y \<in> set (concat (asks b)) \<Longrightarrow>
   limit_price x < limit_price y"
  unfolding no_cross_def by (elim ballE) (assumption | erule notE)+

lemma no_cross_asks_sub:
  assumes nc: "no_cross b"
    and sub: "limit_price ` set (concat A) \<subseteq> limit_price ` set (concat (asks b))"
  shows "no_cross (b\<lparr>asks := A\<rparr>)"
proof (rule no_crossI)
  have eqs: "bids (b\<lparr>asks := A\<rparr>) = bids b" "asks (b\<lparr>asks := A\<rparr>) = A" by simp_all
  fix x y
  assume "x \<in> set (concat (bids (b\<lparr>asks := A\<rparr>)))" "y \<in> set (concat (asks (b\<lparr>asks := A\<rparr>)))"
  then have x: "x \<in> set (concat (bids b))" and y: "y \<in> set (concat A)"
    by (simp_all only: eqs)
  from y have "limit_price y \<in> limit_price ` set (concat A)" by (rule imageI)
  with sub have "limit_price y \<in> limit_price ` set (concat (asks b))" by (rule subsetD)
  then obtain y' where "limit_price y = limit_price y'" "y' \<in> set (concat (asks b))"
    by (rule imageE)
  with no_crossD[OF nc x, of y'] show "limit_price x < limit_price y" by (simp only:)
qed

lemma no_cross_bids_sub:
  assumes nc: "no_cross b"
    and sub: "limit_price ` set (concat A) \<subseteq> limit_price ` set (concat (bids b))"
  shows "no_cross (b\<lparr>bids := A\<rparr>)"
proof (rule no_crossI)
  have eqs: "bids (b\<lparr>bids := A\<rparr>) = A" "asks (b\<lparr>bids := A\<rparr>) = asks b" by simp_all
  fix x y
  assume "x \<in> set (concat (bids (b\<lparr>bids := A\<rparr>)))" "y \<in> set (concat (asks (b\<lparr>bids := A\<rparr>)))"
  then have x: "x \<in> set (concat A)" and y: "y \<in> set (concat (asks b))"
    by (simp_all only: eqs)
  from x have "limit_price x \<in> limit_price ` set (concat A)" by (rule imageI)
  with sub have "limit_price x \<in> limit_price ` set (concat (bids b))" by (rule subsetD)
  then obtain x' where "limit_price x = limit_price x'" "x' \<in> set (concat (bids b))"
    by (rule imageE)
  with no_crossD[OF nc _ y, of x'] show "limit_price x < limit_price y" by (simp only:)
qed

lemma no_cross_bids_insert:
  assumes nc: "no_cross b" and c: "set (concat A) = insert z (set (concat (bids b)))"
    and z: "\<forall>y \<in> set (concat (asks b)). limit_price z < limit_price y"
  shows "no_cross (b\<lparr>bids := A\<rparr>)"
proof (rule no_crossI)
  have eqs: "bids (b\<lparr>bids := A\<rparr>) = A" "asks (b\<lparr>bids := A\<rparr>) = asks b" by simp_all
  fix x y
  assume "x \<in> set (concat (bids (b\<lparr>bids := A\<rparr>)))" "y \<in> set (concat (asks (b\<lparr>bids := A\<rparr>)))"
  then have x: "x \<in> set (concat A)" and y: "y \<in> set (concat (asks b))"
    by (simp_all only: eqs)
  from x have "x \<in> insert z (set (concat (bids b)))" by (simp only: c)
  then have "x = z \<or> x \<in> set (concat (bids b))" by (simp only: insert_iff)
  then show "limit_price x < limit_price y"
  proof
    assume "x = z"
    with z y show ?thesis by blast
  next
    assume "x \<in> set (concat (bids b))"
    from no_crossD[OF nc this y] show ?thesis .
  qed
qed

lemma no_cross_asks_insert:
  assumes nc: "no_cross b" and c: "set (concat A) = insert z (set (concat (asks b)))"
    and z: "\<forall>x \<in> set (concat (bids b)). limit_price x < limit_price z"
  shows "no_cross (b\<lparr>asks := A\<rparr>)"
proof (rule no_crossI)
  have eqs: "bids (b\<lparr>asks := A\<rparr>) = bids b" "asks (b\<lparr>asks := A\<rparr>) = A" by simp_all
  fix x y
  assume "x \<in> set (concat (bids (b\<lparr>asks := A\<rparr>)))" "y \<in> set (concat (asks (b\<lparr>asks := A\<rparr>)))"
  then have x: "x \<in> set (concat (bids b))" and y: "y \<in> set (concat A)"
    by (simp_all only: eqs)
  from y have "y \<in> insert z (set (concat (asks b)))" by (simp only: c)
  then have "y = z \<or> y \<in> set (concat (asks b))" by (simp only: insert_iff)
  then show "limit_price x < limit_price y"
  proof
    assume "y = z"
    with z x show ?thesis by blast
  next
    assume "y \<in> set (concat (asks b))"
    from no_crossD[OF nc x this] show ?thesis .
  qed
qed

lemma executeOrder_ok:
  assumes ok: "book_ok b" and q: "0 < quantity order'"
  shows "(executeOrder b order' = Inr (None, b) \<and>
          (\<forall>y \<in> set (concat (if is_buy_order order' then asks b else bids b)).
             better (\<not> is_buy_order order') (limit_price order') (limit_price y)))
       \<or> (\<exists>m b'. executeOrder b order' = Inr (Some m, b') \<and> book_ok b' \<and>
            0 < quantity m \<and> quantity m \<le> quantity order')"
proof (cases "is_buy_order order'")
  case True
  from ok have s: "side_ok False (asks b)" by (simp add: book_ok_def)
  from executeOrder_side_ok[OF s _ q, of ] True
  consider
    (none) "executeOrder_side order' (asks b) = Inr (None, asks b)"
      "\<forall>y \<in> set (concat (asks b)). better False (limit_price order') (limit_price y)"
  | (some) m side' where "executeOrder_side order' (asks b) = Inr (Some m, side')"
      "side_ok False side'"
      "limit_price ` set (concat side') \<subseteq> limit_price ` set (concat (asks b))"
      "0 < quantity m" "quantity m \<le> quantity order'"
    by auto
  then show ?thesis
  proof cases
    case none
    with True show ?thesis by (simp add: executeOrder_def)
  next
    case some
    from some(1) True have e: "executeOrder b order' = Inr (Some m, b\<lparr>asks := side'\<rparr>)"
      by (simp add: executeOrder_def)
    from ok have "no_cross b" by (simp add: book_ok_def)
    from no_cross_asks_sub[OF this some(3)] have "no_cross (b\<lparr>asks := side'\<rparr>)" .
    with ok some(2) have "book_ok (b\<lparr>asks := side'\<rparr>)" by (simp add: book_ok_def)
    with e some(4,5) show ?thesis by blast
  qed
next
  case False
  from ok have s: "side_ok True (bids b)" by (simp add: book_ok_def)
  from executeOrder_side_ok[OF s _ q] False
  consider
    (none) "executeOrder_side order' (bids b) = Inr (None, bids b)"
      "\<forall>y \<in> set (concat (bids b)). better True (limit_price order') (limit_price y)"
  | (some) m side' where "executeOrder_side order' (bids b) = Inr (Some m, side')"
      "side_ok True side'"
      "limit_price ` set (concat side') \<subseteq> limit_price ` set (concat (bids b))"
      "0 < quantity m" "quantity m \<le> quantity order'"
    by auto
  then show ?thesis
  proof cases
    case none
    with False show ?thesis by (simp add: executeOrder_def)
  next
    case some
    from some(1) False have e: "executeOrder b order' = Inr (Some m, b\<lparr>bids := side'\<rparr>)"
      by (simp add: executeOrder_def)
    from ok have "no_cross b" by (simp add: book_ok_def)
    from no_cross_bids_sub[OF this some(3)] have "no_cross (b\<lparr>bids := side'\<rparr>)" .
    with ok some(2) have "book_ok (b\<lparr>bids := side'\<rparr>)" by (simp add: book_ok_def)
    with e some(4,5) show ?thesis by blast
  qed
qed

lemma enterOrder_ok:
  assumes ok: "book_ok b" and q: "0 < quantity order'"
    and nc: "\<forall>y \<in> set (concat (if is_buy_order order' then asks b else bids b)).
               better (\<not> is_buy_order order') (limit_price order') (limit_price y)"
  shows "\<exists>b'. enterOrder b order' = Inr b' \<and> book_ok b'"
proof (cases "is_buy_order order'")
  case True
  from ok have s: "side_ok True (bids b)" by (simp add: book_ok_def)
  from enterOrder_side_ok[OF s _ q] True obtain side' where
    e: "enterOrder_side order' (bids b) = Inr side'" and s': "side_ok True side'" and
    c: "set (concat side') = insert order' (set (concat (bids b)))"
    by auto
  from nc True have z: "\<forall>y \<in> set (concat (asks b)). limit_price order' < limit_price y"
    by (simp only: better_def if_True if_False not_True_eq_False simp_thms)
  from ok have "no_cross b" by (simp add: book_ok_def)
  from no_cross_bids_insert[OF this c z] have "no_cross (b\<lparr>bids := side'\<rparr>)" .
  with ok s' have "book_ok (b\<lparr>bids := side'\<rparr>)" by (simp add: book_ok_def)
  with e True show ?thesis by (simp add: enterOrder_def)
next
  case False
  from ok have s: "side_ok False (asks b)" by (simp add: book_ok_def)
  from enterOrder_side_ok[OF s _ q] False obtain side' where
    e: "enterOrder_side order' (asks b) = Inr side'" and s': "side_ok False side'" and
    c: "set (concat side') = insert order' (set (concat (asks b)))"
    by auto
  from nc False have z: "\<forall>y \<in> set (concat (bids b)). limit_price y < limit_price order'"
    by (simp only: better_def if_True if_False not_False_eq_True simp_thms)
  from ok have "no_cross b" by (simp add: book_ok_def)
  from no_cross_asks_insert[OF this c z] have "no_cross (b\<lparr>asks := side'\<rparr>)" .
  with ok s' have "book_ok (b\<lparr>asks := side'\<rparr>)" by (simp add: book_ok_def)
  with e False show ?thesis by (simp add: enterOrder_def)
qed

lemma handleLimitOrder_loop_ok:
  "book_ok b \<Longrightarrow> 0 < quantity order' \<Longrightarrow> \<forall>e \<in> set executed. 0 < fst e \<Longrightarrow>
   \<exists>b' sent' executed'.
     handleLimitOrder_loop b order' sent executed = Inr (b', sent', executed') \<and>
     book_ok b' \<and> (\<forall>e \<in> set executed'. 0 < fst e)"
proof (induction b order' sent executed rule: handleLimitOrder_loop.induct)
  case (1 b order' sent executed)
  from executeOrder_ok[OF "1.prems"(1,2)]
  consider
    (none) "executeOrder b order' = Inr (None, b)"
      "\<forall>y \<in> set (concat (if is_buy_order order' then asks b else bids b)).
         better (\<not> is_buy_order order') (limit_price order') (limit_price y)"
  | (some) m b' where "executeOrder b order' = Inr (Some m, b')" "book_ok b'"
      "0 < quantity m" "quantity m \<le> quantity order'"
    by blast
  then show ?case
  proof cases
    case none
    from enterOrder_ok[OF "1.prems"(1,2) none(2)] obtain b' where
      "enterOrder b order' = Inr b'" "book_ok b'" by blast
    with none(1) "1.prems"(3) show ?thesis
      by (subst handleLimitOrder_loop.simps) simp
  next
    case some
    show ?thesis
    proof (cases "quantity order' - quantity m \<le> 0")
      case True
      with some "1.prems"(3) show ?thesis
        by (subst handleLimitOrder_loop.simps) simp
    next
      case False
      have ex: "\<forall>e \<in> set (executed @ [(quantity m, fill_price m)]). 0 < fst e"
        using "1.prems"(3) some(3) by auto
      from False have q': "0 < quantity (order'\<lparr>quantity := quantity order' - quantity m\<rparr>)"
        by simp
      from "1.IH"[OF some(1) refl refl False some(2) q' ex]
      show ?thesis
        using some(1) False by (subst handleLimitOrder_loop.simps) simp
    qed
  qed
qed

lemma side_ok_no_empty: "side_ok buy side \<Longrightarrow> [] \<notin> set side"
  by (auto simp: side_ok_def level_ok_def)

lemma sum_list_pos_nonempty:
  "xs \<noteq> [] \<Longrightarrow> \<forall>x \<in> set xs. (0::int) < x \<Longrightarrow> 0 < sum_list xs"
  by (induction xs) (auto simp: add_pos_nonneg sum_list_nonneg less_imp_le)

lemma book_ok_sides:
  "bids b' = bids b \<Longrightarrow> asks b' = asks b \<Longrightarrow> book_ok b' = book_ok b"
  by (simp add: book_ok_def no_cross_def)

lemma book_ok_last_trade: "book_ok (b\<lparr>book_last_trade := v\<rparr>) = book_ok b"
  by (rule book_ok_sides) simp_all

lemma last_trade_log_sides:
  "last_trade_log owner b executed = Inr b2 \<Longrightarrow> bids b2 = bids b \<and> asks b2 = asks b"
  by (auto simp: last_trade_log_def split: if_splits sum.splits prod.splits)

text \<open>
  A call of \<open>handleLimitOrder\<close> that returns has either discarded the order, or run the loop
  and left the bids and asks as the loop left them.
\<close>

lemma handleLimitOrder_cases:
  assumes "handleLimitOrder owner b order' = Inr (b', sent)"
  shows "((symbol order' \<noteq> book_symbol b \<or> quantity order' \<le> 0) \<and> b' = b \<and> sent = []) \<or>
         (symbol order' = book_symbol b \<and> 0 < quantity order' \<and>
          (\<exists>b1 executed. handleLimitOrder_loop b order' [] [] = Inr (b1, sent, executed) \<and>
             bids b' = bids b1 \<and> asks b' = asks b1))"
proof (cases "symbol order' \<noteq> book_symbol b \<or> quantity order' \<le> 0")
  case True
  with assms show ?thesis by (auto simp: handleLimitOrder_def split: if_splits)
next
  case False
  with assms obtain b1 executed where
    l: "handleLimitOrder_loop b order' [] [] = Inr (b1, sent, executed)" and
    lt: "last_trade_log owner b1 executed = Inr b'"
    by (auto simp: handleLimitOrder_def split: sum.splits prod.splits)
  from last_trade_log_sides[OF lt] l False show ?thesis by auto
qed

lemma handleLimitOrder_ok:
  assumes ok: "book_ok b" and e: "handleLimitOrder owner b order' = Inr (b', sent)"
  shows "book_ok b'"
proof -
  from handleLimitOrder_cases[OF e] consider
    (discarded) "b' = b"
  | (entered) b1 executed where "0 < quantity order'"
      "handleLimitOrder_loop b order' [] [] = Inr (b1, sent, executed)"
      "bids b' = bids b1" "asks b' = asks b1"
    by blast
  then show ?thesis
  proof cases
    case discarded
    with ok show ?thesis by simp
  next
    case entered
    from handleLimitOrder_loop_ok[OF ok entered(1), of "[]" "[]"] entered(2)
    have "book_ok b1" by auto
    with book_ok_sides[OF entered(3,4)] show ?thesis by simp
  qed
qed

text \<open>
  On a new book, whose \<open>last_trade\<close> is \<open>None\<close>, an order that passes the guards makes
  \<open>handleLimitOrder\<close> raise, in \<open>prettyPrint\<close>.
\<close>

lemma handleLimitOrder_new_book:
  "symbol order' = s \<Longrightarrow> 0 < quantity order' \<Longrightarrow>
   handleLimitOrder owner (OrderBook_init s) order' = Inl KeyError \<or>
   handleLimitOrder owner (OrderBook_init s) order' = Inl TypeError"
  by (auto simp: handleLimitOrder_def prettyPrint_def OrderBook_init_def observePrice_def
      split: sum.splits option.splits)

lemma cancelOrder_level_set:
  "cancelOrder_level oid l = Some (c, l') \<Longrightarrow> set l' \<subseteq> set l"
  by (induction l arbitrary: l') (auto split: if_splits option.splits)

lemma level_ok_sub:
  assumes "level_ok buy l" "set l' \<subseteq> set l" "l' \<noteq> []"
  shows "level_ok buy l' \<and> level_price l' = level_price l"
proof -
  from assms(3) have "hd l' \<in> set l'" by simp
  with assms(1,2) have p: "level_price l' = level_price l"
    unfolding level_price_def level_ok_def by blast
  from assms show ?thesis unfolding p unfolding level_ok_def p by blast
qed

lemma cancelOrder_scan_ok:
  "side_ok buy side \<Longrightarrow>
   \<exists>c side'. cancelOrder_scan order' side = Inr (c, side') \<and> side_ok buy side' \<and>
     set (concat side') \<subseteq> set (concat side) \<and>
     level_price ` set side' \<subseteq> level_price ` set side"
proof (induction side)
  case Nil
  then show ?case by simp
next
  case (Cons l rest)
  from Cons.prems have l: "level_ok buy l" and r: "side_ok buy rest"
    and b: "\<forall>l' \<in> set rest. better buy (level_price l) (level_price l')"
    by (simp_all add: side_ok_Cons)
  from l obtain x xs where lx: "l = x # xs" by (cases l) (auto simp: level_ok_def)
  define hit where
    "hit = (if isEqualPrice order' x then cancelOrder_level (order_id order') (x # xs) else None)"
  have scan: "cancelOrder_scan order' (l # rest) =
     (case hit of
        Some (c, l') \<Rightarrow> Inr (Some c, if l' = [] then rest else l' # rest)
      | None \<Rightarrow>
          (case cancelOrder_scan order' rest of
             Inl e \<Rightarrow> Inl e
           | Inr (c, rest') \<Rightarrow> Inr (c, l # rest')))"
    unfolding hit_def lx by (rule cancelOrder_scan.simps(3))
  show ?case
  proof (cases hit)
    case None
    from Cons.IH[OF r] obtain c rest' where
      e': "cancelOrder_scan order' rest = Inr (c, rest')" and r': "side_ok buy rest'" and
      c': "set (concat rest') \<subseteq> set (concat rest)" and
      p': "level_price ` set rest' \<subseteq> level_price ` set rest"
      by blast
    have e: "cancelOrder_scan order' (l # rest) = Inr (c, l # rest')"
      by (simp only: scan None e' option.case sum.case prod.case)
    have "better buy (level_price l) (level_price l')" if "l' \<in> set rest'" for l'
    proof -
      from that have "level_price l' \<in> level_price ` set rest'" by (rule imageI)
      with p' have "level_price l' \<in> level_price ` set rest" by (rule subsetD)
      then obtain l'' where "level_price l' = level_price l''" "l'' \<in> set rest"
        by (rule imageE)
      with b show ?thesis by simp
    qed
    with l r' have ok: "side_ok buy (l # rest')" by (simp add: side_ok_Cons)
    have c2: "set (concat (l # rest')) \<subseteq> set (concat (l # rest))"
      using c' by (simp add: le_supI2)
    have p2: "level_price ` set (l # rest') \<subseteq> level_price ` set (l # rest)"
      using p' by (simp add: subset_insertI2)
    from e ok c2 p2 show ?thesis by blast
  next
    case (Some a)
    obtain c l' where a: "a = (c, l')" by (cases a)
    from Some a have lv: "cancelOrder_level (order_id order') (x # xs) = Some (c, l')"
      unfolding hit_def by (cases "isEqualPrice order' x") (simp_all only: if_True if_False option.distinct)
    from cancelOrder_level_set[OF lv] have sub: "set l' \<subseteq> set l" by (simp only: lx)
    have e: "cancelOrder_scan order' (l # rest) =
        Inr (Some c, if l' = [] then rest else l' # rest)"
      by (simp only: scan Some a option.case prod.case)
    show ?thesis
    proof (cases "l' = []")
      case True
      have c2: "set (concat rest) \<subseteq> set (concat (l # rest))" by simp
      have p2: "level_price ` set rest \<subseteq> level_price ` set (l # rest)" by (simp add: subset_insertI)
      from e True have "cancelOrder_scan order' (l # rest) = Inr (Some c, rest)" by simp
      with r c2 p2 show ?thesis by blast
    next
      case False
      note lo = level_ok_sub[OF l sub False]
      from lo b r have ok: "side_ok buy (l' # rest)"
        by (simp add: side_ok_Cons)
      from lo have p2: "level_price ` set (l' # rest) \<subseteq> level_price ` set (l # rest)"
        by simp
      from sub have c2: "set (concat (l' # rest)) \<subseteq> set (concat (l # rest))"
        by (simp add: le_supI1)
      from e False have "cancelOrder_scan order' (l # rest) = Inr (Some c, l' # rest)" by simp
      with ok c2 p2 show ?thesis by blast
    qed
  qed
qed

lemma no_cross_sub:
  assumes "no_cross b" "set (concat (bids b')) \<subseteq> set (concat (bids b))"
    "set (concat (asks b')) \<subseteq> set (concat (asks b))"
  shows "no_cross b'"
proof (rule no_crossI)
  fix x y assume "x \<in> set (concat (bids b'))" "y \<in> set (concat (asks b'))"
  with assms(2,3) have "x \<in> set (concat (bids b))" "y \<in> set (concat (asks b))" by blast+
  from no_crossD[OF assms(1) this] show "limit_price x < limit_price y" .
qed

lemma cancelOrder_ok:
  assumes ok: "book_ok b"
  shows "\<exists>b' sent. cancelOrder b order' = Inr (b', sent) \<and> book_ok b'"
proof (cases "is_buy_order order'")
  case True
  from ok have s: "side_ok True (bids b)" and nc: "no_cross b" by (simp_all add: book_ok_def)
  from cancelOrder_scan_ok[OF s, of order'] obtain c side' where
    e: "cancelOrder_scan order' (bids b) = Inr (c, side')" and s': "side_ok True side'" and
    c: "set (concat side') \<subseteq> set (concat (bids b))"
    by blast
  have eqs: "bids (b\<lparr>bids := side'\<rparr>) = side'" "asks (b\<lparr>bids := side'\<rparr>) = asks b" by simp_all
  from c have "no_cross (b\<lparr>bids := side'\<rparr>)"
    by (intro no_cross_sub[OF nc]) (simp_all only: eqs subset_refl)
  with ok s' have "book_ok (b\<lparr>bids := side'\<rparr>)" by (simp add: book_ok_def)
  with e True show ?thesis by (simp add: cancelOrder_def)
next
  case False
  from ok have s: "side_ok False (asks b)" and nc: "no_cross b" by (simp_all add: book_ok_def)
  from cancelOrder_scan_ok[OF s, of order'] obtain c side' where
    e: "cancelOrder_scan order' (asks b) = Inr (c, side')" and s': "side_ok False side'" and
    c: "set (concat side') \<subseteq> set (concat (asks b))"
    by blast
  have eqs: "asks (b\<lparr>asks := side'\<rparr>) = side'" "bids (b\<lparr>asks := side'\<rparr>) = bids b" by simp_all
  from c have "no_cross (b\<lparr>asks := side'\<rparr>)"
    by (intro no_cross_sub[OF nc]) (simp_all only: eqs subset_refl)
  with ok s' have "book_ok (b\<lparr>asks := side'\<rparr>)" by (simp add: book_ok_def)
  with e False show ?thesis by (simp add: cancelOrder_def)
qed

lemma book_ok_init: "book_ok (OrderBook_init s)"
  by (simp add: book_ok_def OrderBook_init_def side_ok_def no_cross_def)

lemma reachable_book_ok: "reachable b \<Longrightarrow> book_ok b"
proof (induction rule: reachable.induct)
  case (init s)
  show ?case by (rule book_ok_init)
next
  case (owner_sets b v)
  then show ?case by (simp add: book_ok_last_trade)
next
  case (limit b owner order' b' sent)
  from handleLimitOrder_ok[OF limit.IH limit.hyps(2)] show ?case .
next
  case (limit_raised b order' b' sent executed)
  from handleLimitOrder_loop_ok[OF limit_raised.IH limit_raised.hyps(3), of "[]" "[]"]
    limit_raised.hyps(4)
  show ?case by auto
next
  case (cancel b order' b' sent)
  from cancelOrder_ok[OF cancel.IH, of order'] cancel.hyps(2) show ?case by auto
qed

lemma book_ok_best:
  assumes "book_ok b" "bids b \<noteq> []" "asks b \<noteq> []"
  shows "\<exists>p q. best_price (bids b) = Some p \<and> best_price (asks b) = Some q \<and> p < q"
proof -
  from assms obtain lb rb la ra where b: "bids b = lb # rb" and a: "asks b = la # ra"
    by (cases "bids b"; cases "asks b") auto
  from assms(1) b a have "lb \<noteq> []" "la \<noteq> []"
    by (auto simp: book_ok_def side_ok_def level_ok_def)
  then obtain x xs y ys where lb: "lb = x # xs" and la: "la = y # ys"
    by (cases lb; cases la) auto
  have "x \<in> set (concat (bids b))" "y \<in> set (concat (asks b))" by (simp_all add: b a lb la)
  from no_crossD[OF _ this] assms(1) have "limit_price x < limit_price y"
    by (simp add: book_ok_def)
  then show ?thesis by (simp add: best_price_def b a lb la)
qed

section \<open>Running the book\<close>

declare handleLimitOrder_loop.simps [simp del]

text \<open>Values below \<open>2^64\<close> are far from the limit of the doubles.\<close>

lemma float_limit_large: "2 ^ 64 \<le> float_limit"
  by (simp add: float_limit_def)

lemma float_overflows_small: "\<bar>n\<bar> < 2 ^ 64 \<Longrightarrow> \<not> float_overflows n"
  using float_limit_large by (simp add: float_overflows_def)

lemma true_div_overflows_small:
  assumes "b \<noteq> 0" "\<bar>a\<bar> < 2 ^ 64"
  shows "\<not> true_div_overflows a b"
proof -
  from assms(1) have "1 \<le> \<bar>b\<bar>" by simp
  moreover have "0 \<le> float_limit" using float_limit_large by simp
  ultimately have "1 * float_limit \<le> \<bar>b\<bar> * float_limit" by (rule mult_right_mono)
  with assms(2) float_limit_large have "\<bar>a\<bar> < \<bar>b\<bar> * float_limit" by linarith
  then show ?thesis by (simp add: true_div_overflows_def)
qed

lemma dollarize_small: "\<bar>cents\<bar> < 2 ^ 64 \<Longrightarrow> dollarize cents = Inr ()"
  by (simp add: dollarize_def true_div_overflows_small)

lemmas ob_eval =
  handleLimitOrder_def handleLimitOrder_loop.simps executeOrder_def executeOrder_side_def
  enterOrder_def enterOrder_side_def isMatch_def isBetterPrice_def isEqualPrice_def
  OrderBook_init_def mk_order_def prettyPrint_def observePrice_def getInsideBids_def
  getInsideAsks_def best_quote_log_def last_trade_log_def owner_X_def oracle3_def
  dollarize_small float_overflows_small true_div_overflows_small

lemma step1: "handleLimitOrder owner_X book0 (mk_order 1 1 False 50 10100) =
   Inr (book1, [(1, ORDER_ACCEPTED (mk_order 1 1 False 50 10100))])"
  by (simp add: ob_eval book0_def book1_def)

lemma step2: "handleLimitOrder owner_X book1 (mk_order 2 1 False 10 10300) =
   Inr (book2, [(1, ORDER_ACCEPTED (mk_order 2 1 False 10 10300))])"
  by (simp add: ob_eval book1_def book2_def)

lemma step3: "handleLimitOrder owner_X book2 (mk_order 3 2 True 80 10200) =
   Inr (book3,
     [(2, ORDER_EXECUTED ((mk_order 3 2 True 50 10200)\<lparr>fill_price := Some 10100\<rparr>)),
      (1, ORDER_EXECUTED ((mk_order 1 1 False 50 10100)\<lparr>fill_price := Some 10100\<rparr>)),
      (2, ORDER_ACCEPTED (mk_order 3 2 True 30 10200))])"
  by (simp add: ob_eval book2_def book3_def)

lemma reachable_book0: "reachable book0"
  unfolding book0_def by (rule reachable.owner_sets[OF reachable.init])

lemma reachable_book2: "reachable book2"
  using reachable.limit[OF reachable.limit[OF reachable_book0 step1] step2] .

section \<open>Claims about the order book\<close>

text \<open>
  C1. After \<open>handleLimitOrder\<close> returns, the book is not crossed. For every book the code
  can hold (built from an empty \<open>OrderBook\<close> by calls of \<open>handleLimitOrder\<close>, returning or
  raising, and of \<open>cancelOrder\<close>, its owner assigning \<open>last_trade\<close>), every owner and every
  incoming order on which \<open>handleLimitOrder\<close> returns: if both sides of the book it leaves
  are non-empty, the best bid price is strictly below the best ask price; and no resting
  bid is priced at or above any resting ask.
\<close>

theorem handleLimitOrder_never_crossed:
  assumes "reachable b" and "handleLimitOrder owner b order' = Inr (b', sent)"
  shows "(bids b' \<noteq> [] \<and> asks b' \<noteq> [] \<longrightarrow>
            (\<exists>p q. best_price (bids b') = Some p \<and> best_price (asks b') = Some q \<and> p < q)) \<and>
         (\<forall>x \<in> set (concat (bids b')). \<forall>y \<in> set (concat (asks b')).
            limit_price x < limit_price y)"
proof -
  from reachable_book_ok[OF assms(1)] have "book_ok b" .
  from handleLimitOrder_ok[OF this assms(2)] have ok: "book_ok b'" .
  then have "no_cross b'" by (simp add: book_ok_def)
  with book_ok_best[OF ok] show ?thesis unfolding no_cross_def by blast
qed

theorem handleLimitOrder_never_crossed_witness:
  "reachable book2 \<and>
   handleLimitOrder owner_X book2 (mk_order 3 2 True 80 10200) =
     Inr (book3,
       [(2, ORDER_EXECUTED ((mk_order 3 2 True 50 10200)\<lparr>fill_price := Some 10100\<rparr>)),
        (1, ORDER_EXECUTED ((mk_order 1 1 False 50 10100)\<lparr>fill_price := Some 10100\<rparr>)),
        (2, ORDER_ACCEPTED (mk_order 3 2 True 30 10200))]) \<and>
   bids book3 \<noteq> [] \<and> asks book3 \<noteq> [] \<and>
   (\<exists>p q. best_price (bids book3) = Some p \<and> best_price (asks book3) = Some q \<and> p < q)"
  using handleLimitOrder_never_crossed[OF reachable_book2 step3] reachable_book2 step3
  by (simp add: book3_def)

section \<open>The matches of a call\<close>

lemma executeOrder_side_Some:
  assumes "executeOrder_side order' side = Inr (Some m, side')"
  shows "\<exists>o0 Q0. concat side = o0 # Q0 \<and> same_order o0 m \<and>
           fill_price m = Some (limit_price o0) \<and>
           ((quantity o0 \<le> quantity order' \<and> quantity m = quantity o0 \<and> concat side' = Q0) \<or>
            (quantity order' < quantity o0 \<and> quantity m = quantity order' \<and>
             concat side' = o0\<lparr>quantity := quantity o0 - quantity order'\<rparr> # Q0))"
proof -
  from assms obtain o0 os rest where s: "side = (o0 # os) # rest" and im: "isMatch order' o0"
    by (auto simp: executeOrder_side_def split: list.splits if_splits)
  show ?thesis
  proof (cases "quantity o0 \<le> quantity order'")
    case True
    with assms s im have "m = o0\<lparr>fill_price := Some (limit_price o0)\<rparr>"
      "side' = (if os = [] then rest else os # rest)"
      by (simp_all add: executeOrder_side_def)
    with True s show ?thesis by (auto simp: same_order_def)
  next
    case False
    with assms s im have "m = o0\<lparr>quantity := quantity order', fill_price := Some (limit_price o0)\<rparr>"
      "side' = (o0\<lparr>quantity := quantity o0 - quantity order'\<rparr> # os) # rest"
      by (simp_all add: executeOrder_side_def)
    with False s show ?thesis by (auto simp: same_order_def)
  qed
qed

lemma executeOrder_side_None:
  "executeOrder_side order' side = Inr (None, side') \<Longrightarrow> side' = side"
  by (auto simp: executeOrder_side_def split: list.splits if_splits)

lemma executeOrder_Some:
  assumes "executeOrder b order' = Inr (Some m, b')"
  shows "\<exists>o0 Q0. concat (opposite_side b order') = o0 # Q0 \<and> same_order o0 m \<and>
           fill_price m = Some (limit_price o0) \<and>
           ((quantity o0 \<le> quantity order' \<and> quantity m = quantity o0 \<and>
             concat (opposite_side b' order') = Q0) \<or>
            (quantity order' < quantity o0 \<and> quantity m = quantity order' \<and>
             concat (opposite_side b' order') =
               o0\<lparr>quantity := quantity o0 - quantity order'\<rparr> # Q0))"
proof (cases "is_buy_order order'")
  case True
  with assms obtain side' where "executeOrder_side order' (asks b) = Inr (Some m, side')"
    "b' = b\<lparr>asks := side'\<rparr>"
    by (auto simp: executeOrder_def split: sum.splits)
  with executeOrder_side_Some[OF this(1)] True show ?thesis
    by (simp add: opposite_side_def)
next
  case False
  with assms obtain side' where "executeOrder_side order' (bids b) = Inr (Some m, side')"
    "b' = b\<lparr>bids := side'\<rparr>"
    by (auto simp: executeOrder_def split: sum.splits)
  with executeOrder_side_Some[OF this(1)] False show ?thesis
    by (simp add: opposite_side_def)
qed

lemma executeOrder_None: "executeOrder b order' = Inr (None, b') \<Longrightarrow> b' = b"
  by (auto simp: executeOrder_def split: sum.splits if_splits dest: executeOrder_side_None)

lemma executeOrder_own:
  "executeOrder b order' = Inr (m, b') \<Longrightarrow> own_side b' order' = own_side b order'"
  by (auto simp: executeOrder_def own_side_def split: sum.splits if_splits)

lemma enterOrder_opposite:
  "enterOrder b order' = Inr b' \<Longrightarrow> opposite_side b' order' = opposite_side b order'"
  by (auto simp: enterOrder_def opposite_side_def split: sum.splits if_splits)

lemma enterOrder_own:
  "enterOrder b order' = Inr b' \<Longrightarrow>
   enterOrder_side order' (own_side b order') = Inr (own_side b' order')"
  by (auto simp: enterOrder_def own_side_def split: sum.splits if_splits)

lemma same_order_requantified:
  "same_order (order'\<lparr>quantity := q\<rparr>) x = same_order order' x"
  by (simp add: same_order_def)

lemma matched_with_requantified:
  "matched_with (order'\<lparr>quantity := q\<rparr>) r p = matched_with order' r p"
  by (simp add: matched_with_def same_order_requantified)

lemma loop_result_enter:
  "enterOrder_side order' own = Inr own' \<Longrightarrow>
   loop_result order' Q Q own own' [(agent_id order', ORDER_ACCEPTED order')]"
  unfolding loop_result_def consumed_from_head_def
  by (rule exI[of _ "[]"], rule exI[of _ "[(agent_id order', ORDER_ACCEPTED order')]"])
     (simp add: same_order_def)

lemma loop_result_none: "loop_result order' Q Q own own []"
  unfolding loop_result_def consumed_from_head_def
  by (rule exI[of _ "[]"], rule exI[of _ "[]"]) simp

lemma loop_result_last_full:
  assumes "matched_with order' o0 (f, m)" "agent_id f = agent_id order'"
    "quantity m = quantity o0"
  shows "loop_result order' (o0 # Q0) Q0 own own
           [(agent_id order', ORDER_EXECUTED f), (agent_id m, ORDER_EXECUTED m)]"
  unfolding loop_result_def consumed_from_head_def
  using assms
  by (intro exI[of _ "[(f, m)]"] exI[of _ "[]"]) (simp add: match_msgs_def fully_filled_def)

lemma loop_result_last_part:
  assumes "matched_with order' o0 (f, m)" "agent_id f = agent_id order'"
    "quantity m < quantity o0"
  shows "loop_result order' (o0 # Q0) (o0\<lparr>quantity := quantity o0 - quantity m\<rparr> # Q0) own own
           [(agent_id order', ORDER_EXECUTED f), (agent_id m, ORDER_EXECUTED m)]"
  unfolding loop_result_def consumed_from_head_def
  using assms
  by (intro exI[of _ "[(f, m)]"] exI[of _ "[]"]) (simp add: match_msgs_def)

lemma loop_result_step:
  assumes m: "matched_with order' o0 (f, m)" and a: "agent_id f = agent_id order'"
    and full: "quantity m = quantity o0"
    and r: "loop_result (order'\<lparr>quantity := q\<rparr>) Q0 Q' own own' msgs"
  shows "loop_result order' (o0 # Q0) Q' own own'
           ([(agent_id order', ORDER_EXECUTED f), (agent_id m, ORDER_EXECUTED m)] @ msgs)"
proof -
  from r obtain pairs tail where
    ms: "msgs = concat (map match_msgs pairs) @ tail" and
    t: "(tail = [] \<and> own' = own) \<or>
        (\<exists>x. same_order order' x \<and> tail = [(agent_id order', ORDER_ACCEPTED x)] \<and>
             enterOrder_side x own = Inr own')" and
    l: "list_all2 (matched_with order') (take (length pairs) Q0) pairs" and
    q: "(Q' = drop (length pairs) Q0 \<and>
          list_all2 fully_filled (take (length pairs) Q0) pairs) \<or>
         (pairs \<noteq> [] \<and>
          quantity (snd (last pairs)) < quantity (Q0 ! (length pairs - 1)) \<and>
          Q' = (Q0 ! (length pairs - 1))
                 \<lparr>quantity := quantity (Q0 ! (length pairs - 1)) - quantity (snd (last pairs))\<rparr> #
               drop (length pairs) Q0 \<and>
          list_all2 fully_filled (take (length pairs - 1) Q0) (butlast pairs))"
    unfolding loop_result_def consumed_from_head_def same_order_requantified
      matched_with_requantified
    by auto
  let ?pairs = "(f, m) # pairs"
  let ?Q = "o0 # Q0"
  have 1: "[(agent_id order', ORDER_EXECUTED f), (agent_id m, ORDER_EXECUTED m)] @ msgs =
           concat (map match_msgs ?pairs) @ tail"
    using a by (simp add: ms match_msgs_def)
  have 2: "list_all2 (matched_with order') (take (length ?pairs) ?Q) ?pairs"
    using m l by simp
  have ff: "fully_filled o0 (f, m)" using full by (simp add: fully_filled_def)
  have 3: "(Q' = drop (length ?pairs) ?Q \<and>
          list_all2 fully_filled (take (length ?pairs) ?Q) ?pairs) \<or>
         (?pairs \<noteq> [] \<and>
          quantity (snd (last ?pairs)) < quantity (?Q ! (length ?pairs - 1)) \<and>
          Q' = (?Q ! (length ?pairs - 1))
                 \<lparr>quantity := quantity (?Q ! (length ?pairs - 1)) - quantity (snd (last ?pairs))\<rparr> #
               drop (length ?pairs) ?Q \<and>
          list_all2 fully_filled (take (length ?pairs - 1) ?Q) (butlast ?pairs))"
  proof -
    from q show ?thesis
    proof
      assume "Q' = drop (length pairs) Q0 \<and> list_all2 fully_filled (take (length pairs) Q0) pairs"
      with ff show ?thesis by simp
    next
      assume p: "pairs \<noteq> [] \<and>
          quantity (snd (last pairs)) < quantity (Q0 ! (length pairs - 1)) \<and>
          Q' = (Q0 ! (length pairs - 1))
                 \<lparr>quantity := quantity (Q0 ! (length pairs - 1)) - quantity (snd (last pairs))\<rparr> #
               drop (length pairs) Q0 \<and>
          list_all2 fully_filled (take (length pairs - 1) Q0) (butlast pairs)"
      then obtain p0 ps where ps: "pairs = p0 # ps" by (cases pairs) auto
      have i: "?Q ! (length ?pairs - 1) = Q0 ! (length pairs - 1)" by (simp add: ps)
      have la: "last ?pairs = last pairs" by (simp add: ps)
      have bl: "butlast ?pairs = (f, m) # butlast pairs" by (simp add: ps)
      have tk: "take (length ?pairs - 1) ?Q = o0 # take (length pairs - 1) Q0" by (simp add: ps)
      have dr: "drop (length ?pairs) ?Q = drop (length pairs) Q0" by simp
      from p ff have "list_all2 fully_filled (take (length ?pairs - 1) ?Q) (butlast ?pairs)"
        unfolding bl tk by simp
      with p show ?thesis unfolding i la dr by blast
    qed
  qed
  from 1 t 2 3 show ?thesis unfolding loop_result_def consumed_from_head_def by blast
qed

lemma handleLimitOrder_loop_result:
  "handleLimitOrder_loop b order' sent executed = Inr (b', sent', executed') \<Longrightarrow>
   \<exists>msgs. sent' = sent @ msgs \<and>
     loop_result order' (concat (opposite_side b order')) (concat (opposite_side b' order'))
       (own_side b order') (own_side b' order') msgs"
proof (induction b order' sent executed rule: handleLimitOrder_loop.induct)
  case (1 b order' sent executed)
  from "1.prems" obtain mo b1 where e: "executeOrder b order' = Inr (mo, b1)"
    by (subst (asm) handleLimitOrder_loop.simps) (auto split: sum.splits)
  note own1 = executeOrder_own[OF e]
  show ?case
  proof (cases mo)
    case None
    with e have b1: "b1 = b" by (simp add: executeOrder_None)
    from "1.prems" e None b1 obtain b2 where en: "enterOrder b order' = Inr b2"
      and res: "b' = b2" "sent' = sent @ [(agent_id order', ORDER_ACCEPTED order')]"
      by (subst (asm) handleLimitOrder_loop.simps) (auto split: sum.splits)
    from loop_result_enter[OF enterOrder_own[OF en], of "concat (opposite_side b order')"]
      enterOrder_opposite[OF en] res
    show ?thesis by simp
  next
    case (Some m)
    let ?f = "order'\<lparr>quantity := quantity m, fill_price := fill_price m\<rparr>"
    let ?two = "[(agent_id order', ORDER_EXECUTED ?f), (agent_id m, ORDER_EXECUTED m)]"
    from executeOrder_Some[OF e[unfolded Some]] obtain o0 Q0 where
      Q: "concat (opposite_side b order') = o0 # Q0" and so: "same_order o0 m" and
      fp: "fill_price m = Some (limit_price o0)" and
      alt: "(quantity o0 \<le> quantity order' \<and> quantity m = quantity o0 \<and>
             concat (opposite_side b1 order') = Q0) \<or>
            (quantity order' < quantity o0 \<and> quantity m = quantity order' \<and>
             concat (opposite_side b1 order') =
               o0\<lparr>quantity := quantity o0 - quantity order'\<rparr> # Q0)"
      by blast
    have mw: "matched_with order' o0 (?f, m)"
      using so fp by (simp add: matched_with_def same_order_def)
    have af: "agent_id ?f = agent_id order'" by simp
    show ?thesis
    proof (cases "quantity order' - quantity m \<le> 0")
      case True
      with "1.prems" e Some have res: "b' = b1" "sent' = sent @ ?two"
        by (subst (asm) handleLimitOrder_loop.simps, simp)+
      from alt show ?thesis
      proof
        assume c: "quantity o0 \<le> quantity order' \<and> quantity m = quantity o0 \<and>
             concat (opposite_side b1 order') = Q0"
        then have "quantity m = quantity o0" by simp
        from loop_result_last_full[OF mw af this, of Q0 "own_side b order'"] c Q res own1
        show ?thesis by simp
      next
        assume c: "quantity order' < quantity o0 \<and> quantity m = quantity order' \<and>
             concat (opposite_side b1 order') =
               o0\<lparr>quantity := quantity o0 - quantity order'\<rparr> # Q0"
        then have "quantity m < quantity o0" by simp
        from loop_result_last_part[OF mw af this, of Q0 "own_side b order'"] c Q res own1
        show ?thesis by simp
      qed
    next
      case False
      let ?o1 = "order'\<lparr>quantity := quantity order' - quantity m\<rparr>"
      from alt False have Q1: "concat (opposite_side b1 order') = Q0"
        and full: "quantity m = quantity o0" by auto
      have os: "opposite_side b1 ?o1 = opposite_side b1 order'"
        "opposite_side b' ?o1 = opposite_side b' order'"
        "own_side b1 ?o1 = own_side b1 order'"
        "own_side b' ?o1 = own_side b' order'"
        by (simp_all add: opposite_side_def own_side_def)
      from "1.prems" e Some False have
        rec: "handleLimitOrder_loop b1 ?o1 (sent @ ?two)
                (executed @ [(quantity m, fill_price m)]) = Inr (b', sent', executed')"
        by (subst (asm) handleLimitOrder_loop.simps) simp
      from "1.IH"[OF e[unfolded Some] refl refl False rec] obtain msgs where
        s': "sent' = (sent @ ?two) @ msgs" and
        lr: "loop_result ?o1 Q0 (concat (opposite_side b' order'))
               (own_side b order') (own_side b' order') msgs"
        unfolding os Q1 own1 by blast
      from loop_result_step[OF mw af full lr] s' Q show ?thesis by simp
    qed
  qed
qed

lemma handleLimitOrder_result:
  assumes "handleLimitOrder owner b order' = Inr (b', sent)"
  shows "loop_result order' (concat (opposite_side b order'))
           (concat (opposite_side b' order')) (own_side b order') (own_side b' order') sent"
proof -
  from handleLimitOrder_cases[OF assms] consider
    (discarded) "b' = b" "sent = []"
  | (entered) b1 executed where
      "handleLimitOrder_loop b order' [] [] = Inr (b1, sent, executed)"
      "bids b' = bids b1" "asks b' = asks b1"
    by blast
  then show ?thesis
  proof cases
    case discarded
    then show ?thesis by (simp add: loop_result_none)
  next
    case entered
    from entered(2,3) have "opposite_side b' order' = opposite_side b1 order'"
      "own_side b' order' = own_side b1 order'"
      by (simp_all add: opposite_side_def own_side_def)
    with handleLimitOrder_loop_result[OF entered(1)] show ?thesis by simp
  qed
qed

lemma better_irrefl: "\<not> better buy p p"
  by (simp add: better_def)

lemma better_asym: "better buy p q \<Longrightarrow> \<not> better buy q p"
  by (auto simp: better_def split: if_splits)

lemma enterOrder_scan_tail:
  assumes "side_ok buy (pre @ level # post)" and o: "is_buy_order order' = buy"
    and p: "level_price level = limit_price order'"
  shows "enterOrder_scan order' (pre @ level # post) = Inr (pre @ (level @ [order']) # post)"
  using assms(1)
proof (induction pre)
  case Nil
  then have l: "level_ok buy level" by (simp add: side_ok_Cons)
  then obtain x xs where lx: "level = x # xs" by (cases level) (auto simp: level_ok_def)
  with l have xb: "is_buy_order x = buy" by (auto simp: level_ok_def)
  from p lx have px: "limit_price x = limit_price order'" by (simp add: level_price_def)
  show ?case
    by (simp add: lx isBetterPrice_same[OF o xb] isEqualPrice_def px better_irrefl)
next
  case (Cons l pre)
  from Cons.prems have l: "level_ok buy l" and r: "side_ok buy (pre @ level # post)"
    and b: "better buy (level_price l) (level_price level)"
    by (simp_all add: side_ok_Cons)
  from l obtain x xs where lx: "l = x # xs" by (cases l) (auto simp: level_ok_def)
  with l have xb: "is_buy_order x = buy" by (auto simp: level_ok_def)
  from b p lx have bx: "better buy (limit_price x) (limit_price order')"
    by (simp add: level_price_def)
  then have nb: "\<not> better buy (limit_price order') (limit_price x)"
    and ne: "limit_price order' \<noteq> limit_price x"
    using better_asym better_irrefl by (blast, metis)
  from Cons.IH[OF r] nb ne show ?case
    by (simp add: lx isBetterPrice_same[OF o xb] isEqualPrice_def)
qed

text \<open>
  On a well-formed side, an order at the price of an existing level is appended to the
  tail of that level.
\<close>

lemma enterOrder_side_tail:
  assumes s: "side_ok buy (pre @ level # post)" and o: "is_buy_order order' = buy"
    and p: "level_price level = limit_price order'"
  shows "enterOrder_side order' (pre @ level # post) = Inr (pre @ (level @ [order']) # post)"
proof -
  let ?side = "pre @ level # post"
  have "last ?side \<in> set ?side" by simp
  with s have lw: "level_ok buy (last ?side)" unfolding side_ok_def by blast
  then obtain w ws where w: "last ?side = w # ws"
    by (cases "last ?side") (auto simp: level_ok_def)
  with lw have wb: "is_buy_order w = buy" by (auto simp: level_ok_def)
  have pw: "level_price (last ?side) = limit_price w" by (simp add: w level_price_def)
  from s have srt: "sorted_wrt (\<lambda>l l'. better buy (level_price l) (level_price l')) ?side"
    by (simp add: side_ok_def)
  have "level \<in> set ?side" by simp
  from sorted_wrt_last[OF srt this] p pw
  have "limit_price order' = limit_price w \<or> better buy (limit_price order') (limit_price w)"
    by auto
  then have "enterOrder_side order' ?side = enterOrder_scan order' ?side"
    by (auto simp: enterOrder_side_def w isBetterPrice_same[OF o wb] isEqualPrice_def)
  with enterOrder_scan_tail[OF s o p] show ?thesis by simp
qed

text \<open>
  Wherever \<open>enterOrder\<close> puts an order on a well-formed side, it is behind every resting
  order with the same or a better price and ahead of every one with a worse price.
\<close>

lemma side_ok_rest_worse:
  assumes "side_ok buy (l # rest)" "y \<in> set (concat rest)"
  shows "better buy (level_price l) (limit_price y)"
proof -
  from assms(2) obtain l' where l': "l' \<in> set rest" "y \<in> set l'" by auto
  from assms(1) l'(1) have "level_ok buy l'" "better buy (level_price l) (level_price l')"
    by (simp_all add: side_ok_Cons side_ok_def)
  with l'(2) show ?thesis by (simp add: level_ok_def)
qed

lemma enterOrder_scan_behind:
  assumes "side_ok buy side" and o: "is_buy_order x = buy"
    and "\<exists>l \<in> set side. \<not> better buy (level_price l) (limit_price x)"
    and "enterOrder_scan x side = Inr side'"
  shows "entered_behind buy x (concat side) (concat side')"
  using assms(1,3,4)
proof (induction side arbitrary: side')
  case Nil
  then show ?case by simp
next
  case (Cons l rest)
  from Cons.prems(1) have l: "level_ok buy l" and r: "side_ok buy rest"
    by (simp_all add: side_ok_Cons)
  from l obtain h hs where lx: "l = h # hs" by (cases l) (auto simp: level_ok_def)
  from l lx have hb: "is_buy_order h = buy" by (auto simp: level_ok_def)
  have ph: "level_price l = limit_price h" by (simp add: level_price_def lx)
  from l ph have lp: "limit_price y = limit_price h" if "y \<in> set l" for y
    using that by (simp add: level_ok_def)
  have rb: "better buy (limit_price h) (limit_price y)" if "y \<in> set (concat rest)" for y
    using side_ok_rest_worse[OF Cons.prems(1) that] ph by simp
  note bp = isBetterPrice_same[OF o hb]
  show ?case
  proof (cases "better buy (limit_price x) (limit_price h)")
    case True
    with Cons.prems(3) have s': "side' = [x] # l # rest" by (simp add: lx bp)
    have "better buy (limit_price x) (limit_price y)" if "y \<in> set (concat (l # rest))" for y
    proof -
      from that consider "y \<in> set l" | "y \<in> set (concat rest)" by auto
      then show ?thesis
      proof cases
        case 1
        from lp[OF this] True show ?thesis by simp
      next
        case 2
        from better_trans[OF True rb[OF this]] show ?thesis .
      qed
    qed
    then have "\<forall>y \<in> set (concat (l # rest)). better buy (limit_price x) (limit_price y)"
      by (intro ballI)
    then show ?thesis unfolding entered_behind_def s'
      by (intro exI[of _ "[]"] exI[of _ "concat (l # rest)"]) simp
  next
    case nb: False
    show ?thesis
    proof (cases "limit_price x = limit_price h")
      case True
      with nb Cons.prems(3) have s': "side' = (l @ [x]) # rest"
        by (simp add: lx bp isEqualPrice_def)
      have 1: "\<forall>y \<in> set l. \<not> better buy (limit_price x) (limit_price y)"
        using lp True better_irrefl by simp
      have 2: "\<forall>y \<in> set (concat rest). better buy (limit_price x) (limit_price y)"
        using rb True by simp
      from 1 2 show ?thesis unfolding entered_behind_def s'
        by (intro exI[of _ l] exI[of _ "concat rest"]) simp
    next
      case ne: False
      from better_trichotomy[OF ne nb] have w: "better buy (limit_price h) (limit_price x)" .
      from Cons.prems(3) nb ne obtain rest' where
        e': "enterOrder_scan x rest = Inr rest'" and s': "side' = l # rest'"
        by (auto simp: lx bp isEqualPrice_def split: sum.splits)
      from Cons.prems(2) w ph
      have ex: "\<exists>l \<in> set rest. \<not> better buy (level_price l) (limit_price x)" by auto
      from Cons.IH[OF r ex e'] obtain pre post where
        pp: "concat rest = pre @ post" "concat rest' = pre @ x # post"
          "\<forall>y \<in> set pre. \<not> better buy (limit_price x) (limit_price y)"
          "\<forall>y \<in> set post. better buy (limit_price x) (limit_price y)"
        unfolding entered_behind_def by blast
      have 1: "\<forall>y \<in> set l. \<not> better buy (limit_price x) (limit_price y)"
        using lp better_asym[OF w] by simp
      from pp 1 show ?thesis unfolding entered_behind_def s'
        by (intro exI[of _ "l @ pre"] exI[of _ post]) auto
    qed
  qed
qed

lemma enterOrder_side_behind:
  assumes s: "side_ok buy side" and o: "is_buy_order x = buy"
    and e: "enterOrder_side x side = Inr side'"
  shows "entered_behind buy x (concat side) (concat side')"
proof (cases "side = []")
  case True
  with e show ?thesis by (auto simp: enterOrder_side_def entered_behind_def)
next
  case False
  then have "last side \<in> set side" by simp
  with s have lw: "level_ok buy (last side)" by (simp add: side_ok_def)
  then obtain w ws where w: "last side = w # ws" by (cases "last side") (auto simp: level_ok_def)
  with lw have wb: "is_buy_order w = buy" by (auto simp: level_ok_def)
  have pw: "level_price (last side) = limit_price w" by (simp add: w level_price_def)
  note bp = isBetterPrice_same[OF o wb]
  show ?thesis
  proof (cases "limit_price x = limit_price w \<or> better buy (limit_price x) (limit_price w)")
    case True
    then have sc: "enterOrder_side x side = enterOrder_scan x side"
      using False by (auto simp: enterOrder_side_def w bp isEqualPrice_def)
    from True pw have "\<not> better buy (level_price (last side)) (limit_price x)"
      using better_irrefl better_asym by metis
    with \<open>last side \<in> set side\<close>
    have "\<exists>l \<in> set side. \<not> better buy (level_price l) (limit_price x)" by blast
    from enterOrder_scan_behind[OF s o this] e sc show ?thesis by simp
  next
    case worse: False
    then have e': "enterOrder_side x side = Inr (side @ [[x]])"
      using False by (auto simp: enterOrder_side_def w bp isEqualPrice_def)
    from worse have lb: "better buy (limit_price w) (limit_price x)"
      using better_trichotomy[of "limit_price x" "limit_price w" buy] by auto
    from s have srt: "sorted_wrt (\<lambda>l l'. better buy (level_price l) (level_price l')) side"
      by (simp add: side_ok_def)
    have lv: "better buy (level_price l) (limit_price x)" if "l \<in> set side" for l
      using sorted_wrt_last[OF srt that] lb pw
        better_trans[of buy "level_price l" "limit_price w" "limit_price x"] by auto
    have "\<not> better buy (limit_price x) (limit_price y)" if "y \<in> set (concat side)" for y
    proof -
      from that obtain l where l: "l \<in> set side" "y \<in> set l" by auto
      with s have "limit_price y = level_price l" by (simp add: side_ok_def level_ok_def)
      with lv[OF l(1)] show ?thesis using better_asym by simp
    qed
    then have "\<forall>y \<in> set (concat side). \<not> better buy (limit_price x) (limit_price y)"
      by (intro ballI)
    with e e' show ?thesis unfolding entered_behind_def
      by (intro exI[of _ "concat side"] exI[of _ "[]"]) auto
  qed
qed

lemma list_all2_set2:
  "list_all2 P xs ys \<Longrightarrow> y \<in> set ys \<Longrightarrow> \<exists>x \<in> set xs. P x y"
  by (induction rule: list_all2_induct) auto

text \<open>
  C4. Every match executes at the resting order's limit price. When \<open>handleLimitOrder\<close>
  returns, the messages it sent are the ORDER_EXECUTED pairs of its matches, followed by
  at most one ORDER_ACCEPTED; in every pair, the resting part is a copy of an order that
  rested on the opposite side, and the fill price reported to both agents is that resting
  order's limit price (not the incoming order's).
\<close>

theorem handleLimitOrder_fill_price:
  assumes "handleLimitOrder owner b order' = Inr (b', sent)"
  shows "\<exists>pairs tail.
           sent = concat (map match_msgs pairs) @ tail \<and>
           (tail = [] \<or> (\<exists>x. tail = [(agent_id order', ORDER_ACCEPTED x)])) \<and>
           (\<forall>p \<in> set pairs. \<exists>r \<in> set (concat (opposite_side b order')).
              same_order order' (fst p) \<and> same_order r (snd p) \<and>
              fill_price (fst p) = Some (limit_price r) \<and>
              fill_price (snd p) = Some (limit_price r))"
proof -
  let ?Q = "concat (opposite_side b order')"
  from handleLimitOrder_result[OF assms] obtain pairs tail where
    m: "sent = concat (map match_msgs pairs) @ tail" and
    t: "tail = [] \<or> (\<exists>x. tail = [(agent_id order', ORDER_ACCEPTED x)])" and
    l: "list_all2 (matched_with order') (take (length pairs) ?Q) pairs"
    unfolding loop_result_def by blast
  have "\<exists>r \<in> set ?Q. same_order order' (fst p) \<and> same_order r (snd p) \<and>
          fill_price (fst p) = Some (limit_price r) \<and>
          fill_price (snd p) = Some (limit_price r)" if "p \<in> set pairs" for p
  proof -
    from list_all2_set2[OF l that] obtain r where
      "r \<in> set (take (length pairs) ?Q)" "matched_with order' r p" by blast
    moreover then have "r \<in> set ?Q" by (meson in_set_takeD)
    ultimately show ?thesis unfolding matched_with_def by blast
  qed
  with m t show ?thesis by blast
qed

lemma buy102_hits_ask100:
  "handleLimitOrder owner_X book_ask100 (mk_order 2 2 True 10 102) =
     Inr (\<lparr>book_symbol = ''X'', bids = [], asks = [], book_last_trade = Some 100\<rparr>,
          [(2, ORDER_EXECUTED ((mk_order 2 2 True 10 102)\<lparr>fill_price := Some 100\<rparr>)),
           (1, ORDER_EXECUTED ((mk_order 1 1 False 10 100)\<lparr>fill_price := Some 100\<rparr>))])"
  by (simp add: ob_eval book_ask100_def)

theorem handleLimitOrder_fill_price_witness:
  "handleLimitOrder owner_X book_ask100 (mk_order 2 2 True 10 102) =
     Inr (\<lparr>book_symbol = ''X'', bids = [], asks = [], book_last_trade = Some 100\<rparr>,
          [(2, ORDER_EXECUTED ((mk_order 2 2 True 10 102)\<lparr>fill_price := Some 100\<rparr>)),
           (1, ORDER_EXECUTED ((mk_order 1 1 False 10 100)\<lparr>fill_price := Some 100\<rparr>))]) \<and>
   (\<exists>pairs tail.
      [(2, ORDER_EXECUTED ((mk_order 2 2 True 10 102)\<lparr>fill_price := Some 100\<rparr>)),
       (1, ORDER_EXECUTED ((mk_order 1 1 False 10 100)\<lparr>fill_price := Some 100\<rparr>))] =
        concat (map match_msgs pairs) @ tail \<and>
      (tail = [] \<or> (\<exists>x. tail = [(agent_id (mk_order 2 2 True 10 102), ORDER_ACCEPTED x)])) \<and>
      (\<forall>p \<in> set pairs.
         \<exists>r \<in> set (concat (opposite_side book_ask100 (mk_order 2 2 True 10 102))).
           same_order (mk_order 2 2 True 10 102) (fst p) \<and> same_order r (snd p) \<and>
           fill_price (fst p) = Some (limit_price r) \<and>
           fill_price (snd p) = Some (limit_price r)))"
  using handleLimitOrder_fill_price[OF buy102_hits_ask100] buy102_hits_ask100
  by (intro conjI) assumption+

text \<open>
  C5. First in, first out at a price. For every book the code can hold and every call of
  \<open>handleLimitOrder\<close> that returns: the matches of the call take the resting orders from
  the head of the opposite side, in the order of the levels and, within a level, in the
  order in which they stand (the k-th match is against the k-th resting order, every
  matched order but possibly the last is filled completely and removed, and the orders
  behind them are left as they were); and when the call rests what is left of the
  incoming order, that order is put on its own side behind every resting order with the
  same or a better price, so behind every order that arrived at its price before it, and
  ahead of the orders with a worse price only. When nothing is rested, the own side is
  unchanged. An order that arrived earlier at a price therefore stands ahead of every
  later one, and is matched first.
\<close>

theorem handleLimitOrder_fifo:
  assumes "reachable b" and "handleLimitOrder owner b incoming = Inr (b', sent)"
  shows "\<exists>pairs tail.
           sent = concat (map match_msgs pairs) @ tail \<and>
           list_all2 (\<lambda>r p. same_order r (snd p))
             (take (length pairs) (concat (opposite_side b incoming))) pairs \<and>
           consumed_from_head (concat (opposite_side b incoming))
             (concat (opposite_side b' incoming)) pairs \<and>
           ((tail = [] \<and> own_side b' incoming = own_side b incoming) \<or>
            (\<exists>x. tail = [(agent_id incoming, ORDER_ACCEPTED x)] \<and> same_order incoming x \<and>
                 entered_behind (is_buy_order incoming) x
                   (concat (own_side b incoming)) (concat (own_side b' incoming))))"
proof -
  let ?own = "own_side b incoming" and ?own' = "own_side b' incoming"
  from handleLimitOrder_result[OF assms(2)] obtain pairs tail where
    m: "sent = concat (map match_msgs pairs) @ tail" and
    t: "(tail = [] \<and> ?own' = ?own) \<or>
        (\<exists>x. same_order incoming x \<and> tail = [(agent_id incoming, ORDER_ACCEPTED x)] \<and>
             enterOrder_side x ?own = Inr ?own')" and
    l: "list_all2 (matched_with incoming)
          (take (length pairs) (concat (opposite_side b incoming))) pairs" and
    c: "consumed_from_head (concat (opposite_side b incoming))
           (concat (opposite_side b' incoming)) pairs"
    unfolding loop_result_def by blast
  from l have l': "list_all2 (\<lambda>r p. same_order r (snd p))
           (take (length pairs) (concat (opposite_side b incoming))) pairs"
    by (rule list_all2_mono) (simp add: matched_with_def)
  from reachable_book_ok[OF assms(1)] have s: "side_ok (is_buy_order incoming) ?own"
    by (simp add: book_ok_def own_side_def)
  have t': "(tail = [] \<and> ?own' = ?own) \<or>
            (\<exists>x. tail = [(agent_id incoming, ORDER_ACCEPTED x)] \<and> same_order incoming x \<and>
                 entered_behind (is_buy_order incoming) x (concat ?own) (concat ?own'))"
  proof -
    from t show ?thesis
    proof
      assume "tail = [] \<and> ?own' = ?own"
      then show ?thesis by (rule disjI1)
    next
      assume "\<exists>x. same_order incoming x \<and> tail = [(agent_id incoming, ORDER_ACCEPTED x)] \<and>
             enterOrder_side x ?own = Inr ?own'"
      then obtain x where x: "same_order incoming x"
        "tail = [(agent_id incoming, ORDER_ACCEPTED x)]" "enterOrder_side x ?own = Inr ?own'"
        by blast
      from x(1) have "is_buy_order x = is_buy_order incoming"
        by (metis (no_types) same_order_def LimitOrder.select_convs(5)
            LimitOrder.surjective LimitOrder.update_convs(4,8))
      from enterOrder_side_behind[OF s this x(3)] x(1,2) show ?thesis by blast
    qed
  qed
  from m l' c t' show ?thesis by blast
qed

lemma rest_X:
  "handleLimitOrder owner_X book0 order_X = Inr (book_X, [(1, ORDER_ACCEPTED order_X)])"
  by (simp add: ob_eval book0_def book_X_def order_X_def)

lemma rest_Y:
  "handleLimitOrder owner_X book_X order_Y = Inr (book_XY, [(3, ORDER_ACCEPTED order_Y)])"
  by (simp add: ob_eval book_X_def book_XY_def order_X_def order_Y_def)

lemma buy_takes_X:
  "handleLimitOrder owner_X book_XY (mk_order 3 2 True 10 10000) =
     Inr (book_Y,
          [(2, ORDER_EXECUTED ((mk_order 3 2 True 10 10000)\<lparr>fill_price := Some 10000\<rparr>)),
           (1, ORDER_EXECUTED (order_X\<lparr>fill_price := Some 10000\<rparr>))])"
  by (simp add: ob_eval book_XY_def book_Y_def order_X_def order_Y_def)

lemma reachable_book_X: "reachable book_X"
  using reachable.limit[OF reachable_book0 rest_X] .

lemma reachable_book_XY: "reachable book_XY"
  using reachable.limit[OF reachable_book_X rest_Y] .

lemma match_msgs_single:
  "[m] = concat (map match_msgs pairs) @ tail \<Longrightarrow> pairs = [] \<and> tail = [m]"
  by (cases pairs) (simp_all add: match_msgs_def)

lemma match_msgs_double:
  assumes "[(a, ORDER_EXECUTED f), (a', ORDER_EXECUTED m)] = concat (map match_msgs pairs) @ tail"
    and "tail = [] \<or> (\<exists>x. tail = [(c, ORDER_ACCEPTED x)])"
  shows "pairs = [(f, m)] \<and> tail = []"
proof (cases pairs)
  case Nil
  with assms show ?thesis by auto
next
  case (Cons p ps)
  obtain f' m' where p: "p = (f', m')" by (cases p)
  from assms(1) Cons p have "f' = f" "m' = m" "concat (map match_msgs ps) @ tail = []"
    by (simp_all add: match_msgs_def)
  then have "ps = []" "tail = []" by (cases ps; simp add: match_msgs_def)+
  with Cons p \<open>f' = f\<close> \<open>m' = m\<close> show ?thesis by simp
qed

theorem handleLimitOrder_fifo_witness:
  "handleLimitOrder owner_X ((OrderBook_init ''X'')\<lparr>book_last_trade := Some 10000\<rparr>) order_X =
     Inr (book_X, [(1, ORDER_ACCEPTED order_X)]) \<and>
   reachable book_X \<and>
   handleLimitOrder owner_X book_X order_Y = Inr (book_XY, [(3, ORDER_ACCEPTED order_Y)]) \<and>
   entered_behind False order_Y [order_X] [order_X, order_Y] \<and>
   reachable book_XY \<and>
   handleLimitOrder owner_X book_XY (mk_order 3 2 True 10 10000) =
     Inr (book_Y,
          [(2, ORDER_EXECUTED ((mk_order 3 2 True 10 10000)\<lparr>fill_price := Some 10000\<rparr>)),
           (1, ORDER_EXECUTED (order_X\<lparr>fill_price := Some 10000\<rparr>))]) \<and>
   consumed_from_head [order_X, order_Y] [order_Y]
     [((mk_order 3 2 True 10 10000)\<lparr>fill_price := Some 10000\<rparr>,
       order_X\<lparr>fill_price := Some 10000\<rparr>)]"
proof -
  let ?buy = "mk_order 3 2 True 10 10000"
  have sides:
    "own_side book_X order_Y = [[order_X]]" "own_side book_XY order_Y = [[order_X, order_Y]]"
    "opposite_side book_XY ?buy = [[order_X, order_Y]]" "opposite_side book_Y ?buy = [[order_Y]]"
    "is_buy_order order_Y = False" "agent_id order_Y = 3" "agent_id ?buy = 2"
    by (simp_all add: own_side_def opposite_side_def book_X_def book_XY_def book_Y_def
        order_Y_def mk_order_def)
  from handleLimitOrder_fifo[OF reachable_book_X rest_Y] obtain pairs tail where
    m: "[(3, ORDER_ACCEPTED order_Y)] = concat (map match_msgs pairs) @ tail" and
    t: "(tail = [] \<and> [[order_X, order_Y]] = [[order_X]]) \<or>
        (\<exists>x. tail = [(3, ORDER_ACCEPTED x)] \<and> same_order order_Y x \<and>
             entered_behind False x [order_X] [order_X, order_Y])"
    unfolding sides by auto
  from match_msgs_single[OF m] t
  have 1: "entered_behind False order_Y [order_X] [order_X, order_Y]" by auto
  from handleLimitOrder_fifo[OF reachable_book_XY buy_takes_X] obtain pairs' tail' where
    m': "[(2, ORDER_EXECUTED (?buy\<lparr>fill_price := Some 10000\<rparr>)),
          (1, ORDER_EXECUTED (order_X\<lparr>fill_price := Some 10000\<rparr>))] =
         concat (map match_msgs pairs') @ tail'" and
    c': "consumed_from_head [order_X, order_Y] [order_Y] pairs'" and
    t': "tail' = [] \<or> (\<exists>x. tail' = [(2, ORDER_ACCEPTED x)])"
    unfolding sides by auto
  from match_msgs_double[OF m' t'] c'
  have 2: "consumed_from_head [order_X, order_Y] [order_Y]
     [(?buy\<lparr>fill_price := Some 10000\<rparr>, order_X\<lparr>fill_price := Some 10000\<rparr>)]" by simp
  from rest_X[unfolded book0_def] reachable_book_X rest_Y 1 reachable_book_XY buy_takes_X 2
  show ?thesis by (intro conjI)
qed

section \<open>Marking to market\<close>

lemma marks_fit_Nil: "marks_fit lt []"
  by (simp add: marks_fit_def)

lemma marks_fit_Cons:
  "marks_fit lt ((s, n) # h) =
     ((s \<noteq> ''CASH'' \<longrightarrow>
        (\<forall>p. lt s = Some p \<longrightarrow>
           \<not> true_div_overflows p 100 \<and> \<not> true_div_overflows (p * n) 100)) \<and>
      marks_fit lt h)"
  by (auto simp: marks_fit_def)

text \<open>
  With a last trade for every symbol held, the loop of \<open>markToMarket\<close> adds up the values,
  unless a price or a value is beyond the doubles.
\<close>

lemma markToMarket_loop_sum:
  "\<forall>(s, n) \<in> set h. s \<noteq> ''CASH'' \<longrightarrow> lt s \<noteq> None \<Longrightarrow>
   markToMarket_loop lt h cash =
     (if marks_fit lt h
      then Inr (cash + (\<Sum>(s, n) \<leftarrow> filter (\<lambda>(s, n). s \<noteq> ''CASH'') h. the (lt s) * n))
      else Inl OverflowError)"
proof (induction h arbitrary: cash)
  case Nil
  then show ?case by (simp add: marks_fit_Nil)
next
  case (Cons x h)
  obtain s n where x: "x = (s, n)" by (cases x)
  from Cons.prems have rest: "\<forall>(s, n) \<in> set h. s \<noteq> ''CASH'' \<longrightarrow> lt s \<noteq> None" by simp
  show ?case
  proof (cases "s = ''CASH''")
    case True
    with Cons.IH[OF rest] x show ?thesis by (simp add: marks_fit_Cons)
  next
    case False
    with Cons.prems x obtain price where "lt s = Some price" by auto
    with Cons.IH[OF rest, of "cash + price * n"] x False show ?thesis
      by (simp add: marks_fit_Cons dollarize_def)
  qed
qed

text \<open>
  With a symbol held that has no last trade, the loop raises: KeyError at that symbol,
  unless a price or a value before it is beyond the doubles.
\<close>

lemma markToMarket_loop_unquoted:
  "(s, n) \<in> set h \<Longrightarrow> s \<noteq> ''CASH'' \<Longrightarrow> lt s = None \<Longrightarrow>
   (markToMarket_loop lt h cash = Inl KeyError \<or>
    markToMarket_loop lt h cash = Inl OverflowError) \<and>
   (marks_fit lt h \<longrightarrow> markToMarket_loop lt h cash = Inl KeyError)"
proof (induction h arbitrary: cash)
  case Nil
  then show ?case by simp
next
  case (Cons x h)
  obtain s' n' where x: "x = (s', n')" by (cases x)
  show ?case
  proof (cases "(s, n) = x")
    case True
    with Cons.prems x show ?thesis by simp
  next
    case False
    with Cons.prems have "(s, n) \<in> set h" by simp
    note IH = Cons.IH[OF this Cons.prems(2,3)]
    show ?thesis
    proof (cases "s' = ''CASH''")
      case True
      with IH[of cash] x show ?thesis by (simp add: marks_fit_Cons)
    next
      case nc: False
      show ?thesis
      proof (cases "lt s'")
        case None
        with nc x show ?thesis by simp
      next
        case (Some p)
        with IH[of "cash + p * n'"] nc x show ?thesis
          by (simp add: marks_fit_Cons dollarize_def)
      qed
    qed
  qed
qed

lemma markToMarket_loop_Inr:
  "markToMarket_loop lt h cash = Inr v \<Longrightarrow>
   marks_fit lt h \<and> (\<forall>(s, n) \<in> set h. s \<noteq> ''CASH'' \<longrightarrow> lt s \<noteq> None)"
proof (induction h arbitrary: cash)
  case Nil
  then show ?case by (simp add: marks_fit_Nil)
next
  case (Cons x h)
  obtain s n where x: "x = (s, n)" by (cases x)
  show ?case
  proof (cases "s = ''CASH''")
    case True
    with Cons.prems x have "markToMarket_loop lt h cash = Inr v" by simp
    from Cons.IH[OF this] True x show ?thesis by (simp add: marks_fit_Cons)
  next
    case False
    with Cons.prems x obtain p where p: "lt s = Some p"
      by (cases "lt s") simp_all
    from Cons.prems x False p have
      f: "\<not> true_div_overflows p 100" "\<not> true_div_overflows (p * n) 100" and
      r: "markToMarket_loop lt h (cash + p * n) = Inr v"
      by (simp_all add: dollarize_def split: if_splits)
    from Cons.IH[OF r] f p x show ?thesis by (simp add: marks_fit_Cons)
  qed
qed

lemma markToMarket_loop_errors:
  "markToMarket_loop lt h cash = Inl e \<Longrightarrow> e = KeyError \<or> e = OverflowError"
  by (induction h arbitrary: cash)
     (auto simp: dollarize_def split: if_splits option.splits)

lemma markToMarket_errors:
  "markToMarket lt h = Inl e \<Longrightarrow> e = KeyError \<or> e = OverflowError"
  by (auto simp: markToMarket_def dollarize_def split: sum.splits option.splits if_splits
      dest: markToMarket_loop_errors)

lemma at_risk_errors: "at_risk lt h = Inl e \<Longrightarrow> e = KeyError \<or> e = OverflowError"
  by (auto simp: at_risk_def split: sum.splits option.splits dest: markToMarket_errors)

lemma markToMarket_unquoted:
  assumes "(s, n) \<in> set h" "s \<noteq> ''CASH''" "lt s = None"
  shows "(markToMarket lt h = Inl KeyError \<or> markToMarket lt h = Inl OverflowError) \<and>
         (marks_fit lt h \<longrightarrow> markToMarket lt h = Inl KeyError)"
proof (cases "map_of h ''CASH''")
  case None
  then show ?thesis by (simp add: markToMarket_def)
next
  case (Some cash)
  with markToMarket_loop_unquoted[of s n h lt cash] assms show ?thesis
    by (auto simp: markToMarket_def)
qed

lemma update_mem: "(k, v) \<in> set (AList.update k v al)"
  by (induction al) auto

lemma update_set: "set (AList.update k v al) \<subseteq> insert (k, v) (set al)"
  by (induction al) auto

lemma new_holdings_mem: "\<exists>n. (s, n) \<in> set (new_holdings h s qty buy)"
  unfolding new_holdings_def Let_def by (cases "map_of h s") (auto intro: update_mem)

text \<open>
  An order for a symbol without a last trade, placed by an agent whose present holdings
  can be marked to market: the symbol is not held, and marking the new holdings raises
  KeyError.
\<close>

lemma at_risk_new_symbol:
  assumes r: "at_risk lt h = Inr current" and s: "sym' \<noteq> ''CASH''" and l: "lt sym' = None"
  shows "at_risk lt (new_holdings h sym' qty buy) = Inl KeyError"
proof -
  let ?h' = "new_holdings h sym' qty buy"
  from r obtain cash v where c: "map_of h ''CASH'' = Some cash"
    and m: "markToMarket_loop lt h cash = Inr v"
    by (auto simp: at_risk_def markToMarket_def split: sum.splits option.splits)
  from markToMarket_loop_Inr[OF m] have fit: "marks_fit lt h"
    and q: "\<forall>(s, n) \<in> set h. s \<noteq> ''CASH'' \<longrightarrow> lt s \<noteq> None" by simp_all
  define k where "k = (case map_of h sym' of
      Some held \<Rightarrow> held + (if buy then qty else - qty)
    | None \<Rightarrow> (if buy then qty else - qty))"
  have "?h' = AList.update sym' k h"
    by (simp add: new_holdings_def Let_def k_def split: option.splits)
  then have k: "set ?h' \<subseteq> insert (sym', k) (set h)" by (simp add: update_set)
  have "marks_fit lt ?h'"
    unfolding marks_fit_def
  proof (intro ballI)
    fix x assume "x \<in> set ?h'"
    with k have "x = (sym', k) \<or> x \<in> set h" by auto
    then show "case x of (s, n) \<Rightarrow> \<forall>p. s \<noteq> ''CASH'' \<longrightarrow> lt s = Some p \<longrightarrow>
        \<not> true_div_overflows p 100 \<and> \<not> true_div_overflows (p * n) 100"
    proof
      assume "x = (sym', k)"
      with l show ?thesis by simp
    next
      assume "x \<in> set h"
      with fit show ?thesis unfolding marks_fit_def by (rule bspec)
    qed
  qed
  moreover from new_holdings_mem obtain n where "(sym', n) \<in> set ?h'" by blast
  ultimately have "markToMarket lt ?h' = Inl KeyError"
    using markToMarket_unquoted[of sym' _ ?h' lt] s l by blast
  then show ?thesis by (simp add: at_risk_def)
qed


section \<open>Claims about the trading agent and the oracle\<close>



text \<open>
  C8, as the code has it. A limit order with a non-positive quantity is not an error:
  \<open>handleLimitOrder\<close> discards it and returns, leaving the book as it was and sending
  nothing, and \<open>placeLimitOrder\<close> ignores it and returns, leaving the agent as it was.
\<close>

theorem nonpositive_quantity_discarded:
  "(quantity order' \<le> 0 \<longrightarrow> handleLimitOrder owner b order' = Inr (b, [])) \<and>
   (qty \<le> 0 \<longrightarrow> placeLimitOrder oid a sym' qty buy price = Inr a)"
  by (simp add: handleLimitOrder_def placeLimitOrder_def)

theorem nonpositive_quantity_discarded_witness:
  "quantity (mk_order 9 1 False (- 5) 100) \<le> 0 \<and>
   handleLimitOrder owner_X book2 (mk_order 9 1 False (- 5) 100) = Inr (book2, []) \<and>
   (- 5 :: int) \<le> 0 \<and>
   placeLimitOrder 8 trader ''X'' (- 5) False 1000 = Inr trader"
  using nonpositive_quantity_discarded[of "mk_order 9 1 False (- 5) 100" owner_X book2 "- 5" 8
      trader "''X''" False 1000]
  by (simp add: mk_order_def)

text \<open>
  C8, as stated, fails: an order of quantity zero raises nothing, neither in
  \<open>handleLimitOrder\<close> nor in \<open>placeLimitOrder\<close>; both return normally.
\<close>

theorem nonpositive_quantity_raises_counterexample:
  "quantity (mk_order 9 1 True 0 100) \<le> 0 \<and>
   handleLimitOrder owner_X book1 (mk_order 9 1 True 0 100) = Inr (book1, []) \<and>
   placeLimitOrder 7 trader ''X'' 0 True 1000 = Inr trader"
  by (simp add: handleLimitOrder_def placeLimitOrder_def mk_order_def book1_def)

text \<open>
  C9. With \<open>sigma_n = 0\<close>, \<open>observePrice\<close> returns the fundamental value itself, whatever
  the noise source is: the value of the symbol's series at \<open>t\<close> when \<open>t\<close> is before
  \<open>mkt_close\<close>, and the value of the series one nanosecond before \<open>mkt_close\<close> when \<open>t\<close> is at
  or after \<open>mkt_close\<close>.
\<close>

theorem observePrice_exact:
  assumes "oracle_r orc sym' = Some series"
  shows "(t < mkt_close orc \<longrightarrow> series t = Some v \<longrightarrow>
            observePrice noisy orc sym' t 0 = Inr v) \<and>
         (mkt_close orc \<le> t \<longrightarrow> series (mkt_close orc - 1) = Some v \<longrightarrow>
            observePrice noisy orc sym' t 0 = Inr v)"
  using assms by (simp add: observePrice_def)

theorem observePrice_exact_witness:
  "oracle_r oracle3 ''X'' = Some [0 \<mapsto> 100, 1 \<mapsto> 101, 2 \<mapsto> 99] \<and>
   (1::int) < mkt_close oracle3 \<and>
   observePrice (\<lambda>r_t sigma_n. r_t + 1) oracle3 ''X'' 1 0 = Inr 101 \<and>
   mkt_close oracle3 \<le> 5 \<and>
   observePrice (\<lambda>r_t sigma_n. r_t + 1) oracle3 ''X'' 5 0 = Inr 99"
proof -
  have s: "oracle_r oracle3 ''X'' = Some [0 \<mapsto> 100, 1 \<mapsto> 101, 2 \<mapsto> 99]"
    by (simp add: oracle3_def)
  have c: "(1::int) < mkt_close oracle3" "mkt_close oracle3 \<le> 5" by (simp_all add: oracle3_def)
  from observePrice_exact[OF s, of 1 101 "\<lambda>r_t sigma_n. r_t + 1"] c
  have 1: "observePrice (\<lambda>r_t sigma_n. r_t + 1) oracle3 ''X'' 1 0 = Inr 101" by simp
  from observePrice_exact[OF s, of 5 99 "\<lambda>r_t sigma_n. r_t + 1"] c
  have 2: "observePrice (\<lambda>r_t sigma_n. r_t + 1) oracle3 ''X'' 5 0 = Inr 99"
    by (simp add: oracle3_def)
  from s c 1 2 show ?thesis by (intro conjI)
qed

text \<open>
  C10. \<open>markToMarket\<close> needs a last trade for every symbol held. If the holdings have a
  symbol other than CASH without an entry in \<open>last_trade\<close>, \<open>markToMarket\<close> raises: KeyError
  or, when formatting an earlier price or value for the log overflows, OverflowError; it
  is KeyError when every quoted price and value held is within the doubles
  (\<open>marks_fit\<close>). Hence \<open>placeLimitOrder\<close> with a positive quantity for a symbol other than
  CASH that has no entry in \<open>last_trade\<close> raises, and neither admits nor rejects the order:
  the error of marking the present holdings, when that fails, and KeyError otherwise.
  When the holdings have a CASH entry and every other symbol held has a last trade,
  \<open>markToMarket\<close> does not raise KeyError: it returns CASH plus the sum, over the other
  symbols held, of shares times last trade price, when every price, every value and that
  total are within the doubles, and raises OverflowError otherwise.
\<close>

theorem markToMarket_needs_last_trade:
  "((\<exists>(s, n) \<in> set h. s \<noteq> ''CASH'' \<and> lt s = None) \<longrightarrow>
      (markToMarket lt h = Inl KeyError \<or> markToMarket lt h = Inl OverflowError) \<and>
      (marks_fit lt h \<longrightarrow> markToMarket lt h = Inl KeyError)) \<and>
   (0 < qty \<longrightarrow> sym' \<noteq> ''CASH'' \<longrightarrow> last_trade a sym' = None \<longrightarrow>
      placeLimitOrder oid a sym' qty buy price =
        (case at_risk (last_trade a) (holdings a) of
           Inl e \<Rightarrow> Inl e
         | Inr current \<Rightarrow> Inl KeyError) \<and>
      (placeLimitOrder oid a sym' qty buy price = Inl KeyError \<or>
       placeLimitOrder oid a sym' qty buy price = Inl OverflowError)) \<and>
   (map_of h ''CASH'' = Some cash \<longrightarrow>
    (\<forall>(s, n) \<in> set h. s \<noteq> ''CASH'' \<longrightarrow> lt s \<noteq> None) \<longrightarrow>
      markToMarket lt h =
        (if marks_fit lt h \<and>
            \<not> true_div_overflows
                (cash + (\<Sum>(s, n) \<leftarrow> filter (\<lambda>(s, n). s \<noteq> ''CASH'') h. the (lt s) * n)) 100
         then Inr (cash + (\<Sum>(s, n) \<leftarrow> filter (\<lambda>(s, n). s \<noteq> ''CASH'') h. the (lt s) * n))
         else Inl OverflowError))"
proof (intro conjI impI)
  assume "\<exists>(s, n) \<in> set h. s \<noteq> ''CASH'' \<and> lt s = None"
  then obtain s n where u: "(s, n) \<in> set h" "s \<noteq> ''CASH''" "lt s = None" by auto
  note m = markToMarket_unquoted[of s n h lt, OF u(1,2)]
  from m u(3)
  show "markToMarket lt h = Inl KeyError \<or> markToMarket lt h = Inl OverflowError" by simp
  assume "marks_fit lt h"
  with m u(3) show "markToMarket lt h = Inl KeyError" by simp
next
  assume q: "0 < qty" and s: "sym' \<noteq> ''CASH''" and l: "last_trade a sym' = None"
  show e: "placeLimitOrder oid a sym' qty buy price =
        (case at_risk (last_trade a) (holdings a) of
           Inl e \<Rightarrow> Inl e
         | Inr current \<Rightarrow> Inl KeyError)"
  proof (cases "at_risk (last_trade a) (holdings a)")
    case (Inl e)
    with q show ?thesis by (simp add: placeLimitOrder_def)
  next
    case (Inr current)
    from at_risk_new_symbol[OF Inr s l, of qty buy] Inr q show ?thesis
      by (simp add: placeLimitOrder_def)
  qed
  show "placeLimitOrder oid a sym' qty buy price = Inl KeyError \<or>
       placeLimitOrder oid a sym' qty buy price = Inl OverflowError"
  proof (cases "at_risk (last_trade a) (holdings a)")
    case (Inl e)
    with at_risk_errors[OF Inl] e show ?thesis by auto
  next
    case (Inr current)
    with e show ?thesis by simp
  qed
next
  assume "map_of h ''CASH'' = Some cash"
    "\<forall>(s, n) \<in> set h. s \<noteq> ''CASH'' \<longrightarrow> lt s \<noteq> None"
  then show "markToMarket lt h =
        (if marks_fit lt h \<and>
            \<not> true_div_overflows
                (cash + (\<Sum>(s, n) \<leftarrow> filter (\<lambda>(s, n). s \<noteq> ''CASH'') h. the (lt s) * n)) 100
         then Inr (cash + (\<Sum>(s, n) \<leftarrow> filter (\<lambda>(s, n). s \<noteq> ''CASH'') h. the (lt s) * n))
         else Inl OverflowError)"
    by (simp add: markToMarket_def markToMarket_loop_sum dollarize_def)
qed

lemma marks_fit_example: "marks_fit lt [(''CASH'', 100), (''X'', 2)] = (\<forall>p. lt ''X'' = Some p \<longrightarrow>
    \<not> true_div_overflows p 100 \<and> \<not> true_div_overflows (p * 2) 100)"
  by (simp add: marks_fit_Cons marks_fit_Nil)

theorem markToMarket_needs_last_trade_witness:
  "(\<exists>(s, n) \<in> set [(''CASH'', 100 :: int), (''X'', 2)]. s \<noteq> ''CASH'' \<and> Map.empty s = (None :: int option)) \<and>
   marks_fit Map.empty [(''CASH'', 100), (''X'', 2)] \<and>
   markToMarket Map.empty [(''CASH'', 100), (''X'', 2)] = Inl KeyError \<and>
   (0::int) < 10 \<and> ''X'' \<noteq> ''CASH'' \<and> last_trade trader_unquoted ''X'' = None \<and>
   at_risk (last_trade trader_unquoted) (holdings trader_unquoted) = Inr 0 \<and>
   placeLimitOrder 7 trader_unquoted ''X'' 10 True 1000 = Inl KeyError \<and>
   map_of [(''CASH'', 100 :: int), (''X'', 2)] ''CASH'' = Some 100 \<and>
   [''X'' \<mapsto> 10 :: int] ''X'' \<noteq> None \<and>
   marks_fit [''X'' \<mapsto> 10] [(''CASH'', 100), (''X'', 2)] \<and>
   \<not> true_div_overflows 120 100 \<and>
   markToMarket [''X'' \<mapsto> 10] [(''CASH'', 100), (''X'', 2)] = Inr 120 \<and>
   \<not> marks_fit [''X'' \<mapsto> 100 * float_limit] [(''CASH'', 100), (''X'', 2)] \<and>
   markToMarket [''X'' \<mapsto> 100 * float_limit] [(''CASH'', 100), (''X'', 2)] = Inl OverflowError"
proof -
  have h1: "\<exists>(s, n) \<in> set [(''CASH'', 100 :: int), (''X'', 2)]. s \<noteq> ''CASH'' \<and> Map.empty s = (None :: int option)"
    by simp
  have f1: "marks_fit Map.empty [(''CASH'', 100), (''X'', 2)]" by (simp add: marks_fit_example)
  note t1 = markToMarket_needs_last_trade[of "[(''CASH'', 100), (''X'', 2)]" Map.empty
      10 "''X''" trader_unquoted 7 True 1000 100]
  note t2 = markToMarket_needs_last_trade[of "[(''CASH'', 100), (''X'', 2)]" "[''X'' \<mapsto> 10]"
      10 "''X''" trader_unquoted 7 True 1000 100]
  note t3 = markToMarket_needs_last_trade[of "[(''CASH'', 100), (''X'', 2)]"
      "[''X'' \<mapsto> 100 * float_limit]" 10 "''X''" trader_unquoted 7 True 1000 100]
  have h2: "(0::int) < 10" "''X'' \<noteq> ''CASH''" "last_trade trader_unquoted ''X'' = None"
    by (simp_all add: trader_unquoted_def)
  have a0: "at_risk (last_trade trader_unquoted) (holdings trader_unquoted) = Inr 0"
    by (simp add: at_risk_def markToMarket_def trader_unquoted_def dollarize_small)
  have h3: "map_of [(''CASH'', 100 :: int), (''X'', 2)] ''CASH'' = Some 100"
    "\<forall>(s, n) \<in> set [(''CASH'', 100), (''X'', 2 :: int)]. s \<noteq> ''CASH'' \<longrightarrow> [''X'' \<mapsto> 10 :: int] s \<noteq> None"
    "\<forall>(s, n) \<in> set [(''CASH'', 100), (''X'', 2 :: int)]. s \<noteq> ''CASH'' \<longrightarrow>
       [''X'' \<mapsto> 100 * float_limit] s \<noteq> None"
    by simp_all
  have f2: "marks_fit [''X'' \<mapsto> 10] [(''CASH'', 100), (''X'', 2)]"
    by (simp add: marks_fit_example true_div_overflows_small)
  have f3: "\<not> true_div_overflows 120 100" by (simp add: true_div_overflows_small)
  have f4: "\<not> marks_fit [''X'' \<mapsto> 100 * float_limit] [(''CASH'', 100), (''X'', 2)]"
    using float_limit_large by (simp add: marks_fit_example true_div_overflows_def)
  from t1 h1 f1 have r1: "markToMarket Map.empty [(''CASH'', 100), (''X'', 2)] = Inl KeyError"
    by blast
  from t1 h2 a0 have r2: "placeLimitOrder 7 trader_unquoted ''X'' 10 True 1000 = Inl KeyError"
    by simp
  from t2 h3(1,2) f2 f3 have r3: "markToMarket [''X'' \<mapsto> 10] [(''CASH'', 100), (''X'', 2)] = Inr 120"
    by simp
  from t3 h3(1,3) f4
  have r4: "markToMarket [''X'' \<mapsto> 100 * float_limit] [(''CASH'', 100), (''X'', 2)] =
      Inl OverflowError"
    by simp
  have h4: "[''X'' \<mapsto> 10 :: int] ''X'' \<noteq> None" by simp
  from h1 f1 r1 h2 a0 r2 h3(1) h4 f2 f3 r3 f4 r4 show ?thesis by (intro conjI)
qed

section \<open>The run loop and its callbacks\<close>

lemma kernel_call_log:
  "kernel_call env k c = Inr k' \<Longrightarrow>
   callback_log k' = callback_log k \<and> currentTime k' = currentTime k"
  by (cases c)
     (auto simp: sendMessage_def setWakeup_def setAgentComputeDelay_def delayAgent_def
           split: option.splits if_splits)

lemma kernel_calls_log:
  "kernel_calls env k cs = Inr k' \<Longrightarrow>
   callback_log k' = callback_log k \<and> currentTime k' = currentTime k"
proof (induction cs arbitrary: k)
  case Nil
  then show ?case by simp
next
  case (Cons c cs)
  then obtain k1 where 1: "kernel_call env k c = Inr k1" and 2: "kernel_calls env k1 cs = Inr k'"
    by (auto split: sum.splits)
  from kernel_call_log[OF 1] Cons.IH[OF 2] show ?case by simp
qed

lemma dispatch_log:
  assumes "dispatch env k t agent msg_type msg = Inr k'" "currentTime k = Some t"
    "list_all callback_times_ok (callback_log k)"
  shows "list_all callback_times_ok (callback_log k') \<and> currentTime k' = Some t"
proof (cases "agent < length (agentCurrentTimes k)")
  case False
  with assms(1) show ?thesis by (simp add: dispatch_def)
next
  case True
  show ?thesis
  proof (cases "agentCurrentTimes k ! agent > t")
    case busy: True
    with True assms show ?thesis by (auto simp: dispatch_def)
  next
    case False
    let ?k1 = "k\<lparr>agentCurrentTimes := (agentCurrentTimes k)[agent := t]\<rparr>"
    let ?k2 = "?k1\<lparr>callback_log := callback_log ?k1 @
                  [(agent, msg_type, t, agentCurrentTimes ?k1 ! agent, currentTime ?k1)]\<rparr>"
    obtain s' calls where cb:
      "(if msg_type = WAKEUP then wakeup env agent t (agents_state ?k2)
        else receiveMessage env agent t msg (agents_state ?k2)) = (s', calls)"
      by (cases "if msg_type = WAKEUP then wakeup env agent t (agents_state ?k2)
        else receiveMessage env agent t msg (agents_state ?k2)")
    from assms(1) True False cb obtain k3 where
      kc: "kernel_calls env (?k2\<lparr>agents_state := s'\<rparr>) calls = Inr k3" and
      k': "k' = k3\<lparr>agentCurrentTimes :=
               (agentCurrentTimes k3)
                 [agent := agentCurrentTimes k3 ! agent +
                    (agentComputationDelays k3 ! agent + currentAgentAdditionalDelay k3)]\<rparr>"
      unfolding dispatch_def Let_def
      by (simp split: sum.splits if_splits)
    from kernel_calls_log[OF kc] have
      "callback_log k3 = callback_log k @ [(agent, msg_type, t, t, Some t)]"
      "currentTime k3 = Some t"
      using True assms(2) by simp_all
    with k' assms(3) show ?thesis by (simp add: callback_times_ok_def)
  qed
qed

lemma runner_step_log:
  assumes "runner_step env k = Inr k'" "list_all callback_times_ok (callback_log k)"
  shows "list_all callback_times_ok (callback_log k')"
proof (cases "pq_get (payload_less env) (messages k)")
  case None
  with assms show ?thesis by (simp add: runner_step_def)
next
  case (Some a)
  obtain t agent msg_type msg rest where a: "a = ((t, (agent, msg_type, msg)), rest)"
    by (cases a) auto
  let ?k = "k\<lparr>messages := rest, currentTime := Some t, currentAgentAdditionalDelay := 0\<rparr>"
  from assms(1) Some a have "dispatch env ?k t agent msg_type msg = Inr k'"
    by (simp add: runner_step_def Let_def split: if_splits)
  from dispatch_log[OF this] assms(2) show ?thesis by simp
qed

lemma runner_loop_log:
  "runner_loop fuel env k = Some (Inr k') \<Longrightarrow> list_all callback_times_ok (callback_log k) \<Longrightarrow>
   list_all callback_times_ok (callback_log k')"
proof (induction fuel arbitrary: k)
  case 0
  then show ?case by simp
next
  case (Suc fuel)
  show ?case
  proof (cases "messages k \<noteq> [] \<and>
         (case currentTime k of None \<Rightarrow> False | Some now \<Rightarrow> now \<le> stopTime k)")
    case False
    with Suc.prems show ?thesis by auto
  next
    case True
    with Suc.prems(1) obtain k1 where s: "runner_step env k = Inr k1"
      and l: "runner_loop fuel env k1 = Some (Inr k')"
      by (auto split: sum.splits)
    from Suc.IH[OF l runner_step_log[OF s Suc.prems(2)]] show ?thesis .
  qed
qed

lemma pq_min_least:
  "pq_min pl best xs \<in> set (best # xs) \<and>
   (\<forall>x \<in> set (best # xs).
      fst (pq_min pl best xs) < fst x \<or>
      (fst (pq_min pl best xs) = fst x \<and> fst (snd (pq_min pl best xs)) \<le> fst (snd x)))"
proof (induction xs arbitrary: best)
  case Nil
  then show ?case by simp
next
  case (Cons y ys)
  let ?b = "if entry_less pl y best then y else best"
  let ?m = "pq_min pl ?b ys"
  from Cons.IH[of ?b] have m: "?m \<in> set (?b # ys)"
    and le: "\<forall>x \<in> set (?b # ys). fst ?m < fst x \<or> (fst ?m = fst x \<and> fst (snd ?m) \<le> fst (snd x))"
    by blast+
  from le have mb: "fst ?m < fst ?b \<or> (fst ?m = fst ?b \<and> fst (snd ?m) \<le> fst (snd ?b))" by simp
  have b1: "fst ?b < fst best \<or> (fst ?b = fst best \<and> fst (snd ?b) \<le> fst (snd best))"
    by (auto simp: entry_less_def)
  have b2: "fst ?b < fst y \<or> (fst ?b = fst y \<and> fst (snd ?b) \<le> fst (snd y))"
    by (auto simp: entry_less_def)
  from mb b1 have 1: "fst ?m < fst best \<or> (fst ?m = fst best \<and> fst (snd ?m) \<le> fst (snd best))"
    by auto
  from mb b2 have 2: "fst ?m < fst y \<or> (fst ?m = fst y \<and> fst (snd ?m) \<le> fst (snd y))"
    by auto
  from m have "?m \<in> set (best # y # ys)" by (auto split: if_splits)
  with le 1 2 show ?case by auto
qed

section \<open>Running the kernel\<close>

lemmas kernel_eval =
  runner_step_def dispatch_def pq_get_def pq_put_def entry_less_def Let_def
  idle_env_def kernel0_def setWakeup_def numeral_eq_Suc

lemma busy_first_wakeup:
  "runner_step idle_env ((kernel0 10000000 [0] [1000000])
      \<lparr>messages := [(5000, (0, WAKEUP, None)), (5001, (0, WAKEUP, None))]\<rparr>) = Inr kernel_busy"
  by (simp add: kernel_eval kernel_busy_def)

lemma busy_pop: "pq_get (payload_less idle_env) (messages kernel_busy) =
    Some ((5001, (0, WAKEUP, None)), [])"
  by (simp add: kernel_eval kernel_busy_def)

lemma busy_run:
  "runner_loop 3 idle_env kernel_busy =
     Some (Inr (kernel_busy\<lparr>messages := [], currentTime := Some 1005000,
                  agentCurrentTimes := [2005000],
                  callback_log := [(0, WAKEUP, 5000, 5000, Some 5000),
                                   (0, WAKEUP, 1005000, 1005000, Some 1005000)]\<rparr>))"
  by (simp add: kernel_eval kernel_busy_def)

section \<open>Claims about the kernel\<close>

text \<open>
  C2. A busy agent's event is put back, and a callback is entered at the agent's clock.
  When the run loop pops a WAKEUP or MESSAGE event for an agent whose clock is strictly
  after the event's time, it calls no callback and puts the event back with the agent's
  clock as its delivery time: the kernel is left as it was but for the queue, the current
  time and the reset additional delay. And at every callback entry of a run of the loop
  the time passed to the callback is both the agent's clock and the kernel's current
  time.
\<close>

theorem runner_busy_requeue:
  "(pq_get (payload_less env) (messages k) = Some ((t, (agent, msg_type, msg)), rest) \<longrightarrow>
    msg_type \<noteq> UNKNOWN \<longrightarrow> agent < length (agentCurrentTimes k) \<longrightarrow>
    agentCurrentTimes k ! agent > t \<longrightarrow>
      runner_step env k =
        Inr (k\<lparr>messages := pq_put rest (agentCurrentTimes k ! agent, (agent, msg_type, msg)),
               currentTime := Some t, currentAgentAdditionalDelay := 0\<rparr>)) \<and>
   (list_all callback_times_ok (callback_log k) \<longrightarrow>
    runner_loop fuel env k = Some (Inr k') \<longrightarrow>
      list_all callback_times_ok (callback_log k'))"
proof (intro conjI impI)
  assume "pq_get (payload_less env) (messages k) = Some ((t, (agent, msg_type, msg)), rest)"
    "msg_type \<noteq> UNKNOWN" "agent < length (agentCurrentTimes k)" "agentCurrentTimes k ! agent > t"
  then show "runner_step env k =
        Inr (k\<lparr>messages := pq_put rest (agentCurrentTimes k ! agent, (agent, msg_type, msg)),
               currentTime := Some t, currentAgentAdditionalDelay := 0\<rparr>)"
    by (cases msg_type) (simp_all add: runner_step_def dispatch_def Let_def)
next
  assume "list_all callback_times_ok (callback_log k)" "runner_loop fuel env k = Some (Inr k')"
  then show "list_all callback_times_ok (callback_log k')"
    using runner_loop_log by blast
qed

theorem runner_busy_requeue_witness:
  "pq_get (payload_less idle_env) (messages kernel_busy) = Some ((5001, (0, WAKEUP, None)), []) \<and>
   WAKEUP \<noteq> UNKNOWN \<and> 0 < length (agentCurrentTimes kernel_busy) \<and>
   agentCurrentTimes kernel_busy ! 0 > 5001 \<and>
   runner_step idle_env kernel_busy =
     Inr (kernel_busy\<lparr>messages := [(1005000, (0, WAKEUP, None))], currentTime := Some 5001,
            currentAgentAdditionalDelay := 0\<rparr>) \<and>
   list_all callback_times_ok (callback_log kernel_busy) \<and>
   runner_loop 3 idle_env kernel_busy =
     Some (Inr (kernel_busy\<lparr>messages := [], currentTime := Some 1005000,
                  agentCurrentTimes := [2005000],
                  callback_log := [(0, WAKEUP, 5000, 5000, Some 5000),
                                   (0, WAKEUP, 1005000, 1005000, Some 1005000)]\<rparr>)) \<and>
   list_all callback_times_ok
     [(0, WAKEUP, 5000, 5000, Some 5000), (0, WAKEUP, 1005000, 1005000, Some 1005000)]"
proof -
  have h: "WAKEUP \<noteq> UNKNOWN" "0 < length (agentCurrentTimes kernel_busy)"
    "agentCurrentTimes kernel_busy ! 0 > 5001"
    by (simp_all add: kernel_busy_def kernel0_def)
  have l: "list_all callback_times_ok (callback_log kernel_busy)"
    by (simp add: kernel_busy_def callback_times_ok_def)
  note t = runner_busy_requeue[of idle_env kernel_busy 5001 0 WAKEUP None "[]" 3
      "kernel_busy\<lparr>messages := [], currentTime := Some 1005000,
                  agentCurrentTimes := [2005000],
                  callback_log := [(0, WAKEUP, 5000, 5000, Some 5000),
                                   (0, WAKEUP, 1005000, 1005000, Some 1005000)]\<rparr>"]
  from t busy_pop h have s: "runner_step idle_env kernel_busy =
     Inr (kernel_busy\<lparr>messages := [(1005000, (0, WAKEUP, None))], currentTime := Some 5001,
            currentAgentAdditionalDelay := 0\<rparr>)"
    by (simp add: pq_put_def kernel_busy_def kernel0_def)
  from t l busy_run have f: "list_all callback_times_ok
     [(0, WAKEUP, 5000, 5000, Some 5000), (0, WAKEUP, 1005000, 1005000, Some 1005000)]"
    by simp
  from busy_pop h s l busy_run f show ?thesis by (intro conjI)
qed

text \<open>
  C6, as the code has it. The queue has no insertion sequence number: \<open>get\<close> returns an
  entry of the queue with the lowest delivery time and, among the entries with that
  delivery time, the lowest recipient id, whatever the order of insertion.
\<close>

theorem pq_get_lowest_time_then_recipient:
  assumes "pq_get pl q = Some (e, rest)"
  shows "e \<in> set q \<and> rest = remove1 e q \<and>
         (\<forall>x \<in> set q. fst e < fst x \<or> (fst e = fst x \<and> fst (snd e) \<le> fst (snd x)))"
proof -
  from assms obtain y ys where q: "q = y # ys" and e: "e = pq_min pl y ys"
    and r: "rest = remove1 e q"
    by (auto simp: pq_get_def split: list.splits)
  from pq_min_least[of pl y ys] q e r show ?thesis by simp
qed

theorem pq_get_lowest_time_then_recipient_witness:
  "pq_get (\<lambda>x y. False) [(5, (1, WAKEUP, None :: unit option)), (5, (0, WAKEUP, None))] =
     Some ((5, (0, WAKEUP, None)), [(5, (1, WAKEUP, None))]) \<and>
   (5, (0, WAKEUP, None)) \<in> set [(5 :: int, (1 :: nat, WAKEUP, None :: unit option)), (5, (0, WAKEUP, None))] \<and>
   fst (snd (5 :: int, (0 :: nat, WAKEUP, None :: unit option))) \<le>
     fst (snd (5 :: int, (1 :: nat, WAKEUP, None :: unit option)))"
proof -
  have g: "pq_get (\<lambda>x y. False) [(5, (1, WAKEUP, None :: unit option)), (5, (0, WAKEUP, None))] =
     Some ((5, (0, WAKEUP, None)), [(5, (1, WAKEUP, None))])"
    by (simp add: pq_get_def entry_less_def)
  from pq_get_lowest_time_then_recipient[OF g] g show ?thesis by simp
qed

text \<open>
  C6, as stated, fails: a wakeup for agent 1 at time 5 is inserted before a wakeup for
  agent 0 at time 5, and the run loop wakes agent 0 first.
\<close>

theorem insertion_order_counterexample:
  "setWakeup kernel_tie (Some 1) (Some 5) =
     Inr (kernel_tie\<lparr>messages := [(5, (1, WAKEUP, None))]\<rparr>) \<and>
   setWakeup (kernel_tie\<lparr>messages := [(5, (1, WAKEUP, None))]\<rparr>) (Some 0) (Some 5) =
     Inr (kernel_tie\<lparr>messages := [(5, (1, WAKEUP, None)), (5, (0, WAKEUP, None))]\<rparr>) \<and>
   runner_loop 3 idle_env
     (kernel_tie\<lparr>messages := [(5, (1, WAKEUP, None)), (5, (0, WAKEUP, None))]\<rparr>) =
     Some (Inr (kernel_tie\<lparr>messages := [], currentTime := Some 5, agentCurrentTimes := [6, 6],
                  callback_log := [(0, WAKEUP, 5, 5, Some 5), (1, WAKEUP, 5, 5, Some 5)]\<rparr>))"
  by (simp add: kernel_eval kernel_tie_def)

text \<open>
  C7 against the code: with a stop time of 10, the loop pops the wakeup due at 20 and calls
  the agent's \<open>wakeup\<close> at time 20; only then does it stop, leaving the wakeup due at 30 in
  the queue. The guard of the loop compares the time of the event handled before with
  \<open>stopTime\<close>, so the first event after \<open>stopTime\<close> is still dispatched.
\<close>

theorem runner_dispatches_past_stopTime:
  "stopTime kernel_stop = 10 \<and>
   runner_loop 2 idle_env kernel_stop =
     Some (Inr (kernel_stop\<lparr>messages := [(30, (0, WAKEUP, None))], currentTime := Some 20,
                  agentCurrentTimes := [21],
                  callback_log := [(0, WAKEUP, 20, 20, Some 20)]\<rparr>))"
  by (simp add: kernel_eval kernel_stop_def)

end
